theory Spec2Isabelle
  imports Main
begin

section \<open>Data model\<close>

text \<open>
  The only failure of the module is the \<^verbatim>\<open>TypeError\<close> thrown by \<^verbatim>\<open>spreadInsert\<close>, with the
  message \<^verbatim>\<open>Missing value for column "<columnName>"\<close>. It carries the column name.
\<close>

datatype error = MissingColumnValue string

text \<open>
  \<^verbatim>\<open>QueryConfig\<close> (imported from \<^verbatim>\<open>./config\<close>) is the query object
  \<^verbatim>\<open>{ text: string, values: any[] }\<close>; the two fields are read by \<open>text_of\<close> and
  \<open>values_of\<close>.
\<close>

datatype 'v QueryConfig = QueryConfig (text_of: string) (values_of: "'v list")

text \<open>
  Modelled from the spec: the \<^verbatim>\<open>SqlBuilder\<close> type of \<^verbatim>\<open>./builder\<close>, a module whose source is
  missing. The spec gives three variants: a raw fragment wrapping a literal string, a
  parameter-bound value wrapping one arbitrary value, and a deferred composite wrapping a
  function from the start index to a query object. Such a function may throw, so it returns
  an error or a query object.
\<close>

datatype 'v SqlBuilder =
    Raw string
  | Param 'v
  | Deferred "nat \<Rightarrow> error + 'v QueryConfig"

text \<open>
  The values of the language that reach the module (\<^verbatim>\<open>any\<close>). An object is the list of its
  own enumerable entries in the order of \<^verbatim>\<open>Object.entries\<close>; a function is kept by its name;
  numbers are kept as integers, which is all the module needs since it never computes with
  them.
\<close>

datatype val =
    VUndefined
  | VNull
  | VBool bool
  | VNum int
  | VStr string
  | VArr "val list"
  | VObj "(string \<times> val) list"
  | VFunction string
  | VBuilder "val SqlBuilder"

type_synonym ValueRecord = "(string \<times> val) list"

section \<open>Strings\<close>

text \<open>\<^verbatim>\<open>Array.prototype.join\<close> on an array of strings.\<close>

fun join :: "string \<Rightarrow> string list \<Rightarrow> string" where
  "join sep [] = []"
| "join sep [x] = x"
| "join sep (x # y # ys) = x @ sep @ join sep (y # ys)"

text \<open>The decimal rendering of a non-negative integer, as a template literal prints it.\<close>

definition digit_char :: "nat \<Rightarrow> char" where
  "digit_char d = ''0123456789'' ! d"

fun show_nat :: "nat \<Rightarrow> string" where
  "show_nat n = (if n < 10 then [digit_char n] else show_nat (n div 10) @ [digit_char (n mod 10)])"

declare show_nat.simps [simp del]

section \<open>The builder module\<close>

text \<open>
  Modelled from the spec: \<^verbatim>\<open>rawSqlBuilder\<close>, \<^verbatim>\<open>paramSqlBuilder\<close>, \<^verbatim>\<open>mkSqlBuilder\<close> and
  \<^verbatim>\<open>isSqlBuilder\<close> of \<^verbatim>\<open>./builder\<close>, which construct and recognise the three variants.
\<close>

definition rawSqlBuilder :: "string \<Rightarrow> val SqlBuilder" where
  "rawSqlBuilder rawValue = Raw rawValue"

definition paramSqlBuilder :: "val \<Rightarrow> val SqlBuilder" where
  "paramSqlBuilder v = Param v"

definition mkSqlBuilder :: "(nat \<Rightarrow> error + val QueryConfig) \<Rightarrow> val SqlBuilder" where
  "mkSqlBuilder fn = Deferred fn"

fun isSqlBuilder :: "val \<Rightarrow> bool" where
  "isSqlBuilder (VBuilder b) = True"
| "isSqlBuilder v = False"

text \<open>
  Modelled from the spec: the placeholder token of the single-placeholder rule. The spec
  names it a positional parameter marker such as \<^verbatim>\<open>$1\<close>: a dollar sign and the index in
  decimal.
\<close>

definition placeholder :: "nat \<Rightarrow> string" where
  "placeholder n = CHR ''$'' # show_nat n"

text \<open>
  Modelled from the spec: the serialization of each builder variant. A raw fragment gives its
  string and no values, a parameter-bound value gives one placeholder at the start index and
  itself as the only value, a deferred composite runs its function.
\<close>

fun buildFragment :: "val SqlBuilder \<Rightarrow> nat \<Rightarrow> error + val QueryConfig" where
  "buildFragment (Raw rawValue) nextParamID = Inr (QueryConfig rawValue [])"
| "buildFragment (Param v) nextParamID = Inr (QueryConfig (placeholder nextParamID) [v])"
| "buildFragment (Deferred fn) nextParamID = fn nextParamID"

text \<open>
  A callback given to \<^verbatim>\<open>Array.prototype.map\<close> that assigns to variables of the enclosing
  function and may throw: the variables are the state \<open>'s\<close>, passed in and returned, and a
  throw ends the whole map.
\<close>

fun mapS :: "('a \<Rightarrow> 's \<Rightarrow> error + ('b \<times> 's)) \<Rightarrow> 'a list \<Rightarrow> 's \<Rightarrow> error + ('b list \<times> 's)" where
  "mapS f [] st = Inr ([], st)"
| "mapS f (x # xs) st =
     (case f x st of
        Inl e \<Rightarrow> Inl e
      | Inr (y, st') \<Rightarrow>
          (case mapS f xs st' of
             Inl e \<Rightarrow> Inl e
           | Inr (ys, st'') \<Rightarrow> Inr (y # ys, st'')))"

lemma mapS_cong [fundef_cong]:
  "xs = ys \<Longrightarrow> st = st' \<Longrightarrow> (\<And>x s. x \<in> set ys \<Longrightarrow> f x s = g x s)
   \<Longrightarrow> mapS f xs st = mapS g ys st'"
proof (induction ys arbitrary: xs st st')
  case Nil
  then show ?case by simp
next
  case (Cons y ys)
  have tl: "\<And>s. mapS f ys s = mapS g ys s"
    using Cons.prems(3) by (intro Cons.IH) simp_all
  have hd: "f y st' = g y st'"
    using Cons.prems(3) by simp
  show ?case
    using Cons.prems(1,2) by (simp add: tl hd split: sum.split prod.split)
qed

text \<open>
  Modelled from the spec: \<^verbatim>\<open>buildSql\<close>, the value serializer of \<^verbatim>\<open>./builder\<close>. In priority
  order: a builder serializes itself; an array serializes each element with the running
  index, joins the texts with a comma and a space and wraps them in parentheses; anything
  else is one placeholder at the start index with the value as the only parameter. The
  state of the array's loop is the values gathered so far and the next index.
\<close>

fun buildSql :: "val \<Rightarrow> nat \<Rightarrow> error + val QueryConfig" where
  "buildSql (VBuilder b) nextParamID = buildFragment b nextParamID"
| "buildSql (VArr elements) nextParamID =
     (case mapS (\<lambda>element (vals, nextID).
                   case buildSql element nextID of
                     Inl e \<Rightarrow> Inl e
                   | Inr serialized \<Rightarrow>
                       Inr (text_of serialized,
                            (vals @ values_of serialized, nextID + length (values_of serialized))))
                elements ([], nextParamID) of
        Inl e \<Rightarrow> Inl e
      | Inr (texts, (vals, nextID)) \<Rightarrow>
          Inr (QueryConfig (''('' @ join '', '' texts @ '')'') vals))"
| "buildSql v nextParamID = Inr (QueryConfig (placeholder nextParamID) [v])"

section \<open>The utilities\<close>

text \<open>
  Modelled from the spec: \<^verbatim>\<open>filterUndefined\<close> of \<^verbatim>\<open>../utils\<close>, which drops the entries of a
  record whose value is undefined and keeps the others in their order.
\<close>

fun isUndefined :: "val \<Rightarrow> bool" where
  "isUndefined VUndefined = True"
| "isUndefined v = False"

definition filterUndefined :: "ValueRecord \<Rightarrow> ValueRecord" where
  "filterUndefined record = filter (\<lambda>(key, v). \<not> isUndefined v) record"

text \<open>
  Modelled from the spec: \<^verbatim>\<open>extractKeys\<close> of \<^verbatim>\<open>../utils\<close>, the union of the keys of the
  records, each key at the place where it is first seen.
\<close>

definition extractKeys :: "ValueRecord list \<Rightarrow> string list" where
  "extractKeys records =
     foldl (\<lambda>keys key. if key \<in> set keys then keys else keys @ [key]) []
       (concat (map (map fst) records))"

text \<open>
  Modelled from the spec: \<^verbatim>\<open>mergeLists\<close> of \<^verbatim>\<open>../utils\<close>, which interleaves the literal
  segments and the serialized texts in template order, starting with the first segment.
\<close>

fun mergeLists :: "'a list \<Rightarrow> 'a list \<Rightarrow> 'a list" where
  "mergeLists [] list2 = list2"
| "mergeLists (x # list1) [] = x # list1"
| "mergeLists (x # list1) (y # list2) = x # y # mergeLists list1 list2"

text \<open>
  Modelled from the spec: an instance of \<^verbatim>\<open>escapeIdentifier\<close> of \<^verbatim>\<open>../utils\<close>, wrapping the
  identifier in double quotes and doubling the quotes inside. The spec leaves the quoting to
  the dialect and uses the function as a pure dependency from strings to strings only, so the
  operations below take it as their first argument.
\<close>

definition doubleQuoted :: "string \<Rightarrow> string" where
  "doubleQuoted identifier =
     ''\"'' @ concat (map (\<lambda>c. if c = CHR ''\"'' then ''\"\"'' else [c]) identifier) @ ''\"''"

text \<open>
  The properties that a record written as an object literal inherits from
  \<^verbatim>\<open>Object.prototype\<close>: the constructor and the methods, which are functions, and
  \<^verbatim>\<open>__proto__\<close>, which reads the prototype itself, an object with no enumerable entry.
\<close>

definition objectPrototype :: ValueRecord where
  "objectPrototype =
     [(''constructor'', VFunction ''Object''),
      (''__defineGetter__'', VFunction ''__defineGetter__''),
      (''__defineSetter__'', VFunction ''__defineSetter__''),
      (''hasOwnProperty'', VFunction ''hasOwnProperty''),
      (''__lookupGetter__'', VFunction ''__lookupGetter__''),
      (''__lookupSetter__'', VFunction ''__lookupSetter__''),
      (''isPrototypeOf'', VFunction ''isPrototypeOf''),
      (''propertyIsEnumerable'', VFunction ''propertyIsEnumerable''),
      (''toString'', VFunction ''toString''),
      (''valueOf'', VFunction ''valueOf''),
      (''toLocaleString'', VFunction ''toLocaleString''),
      (''__proto__'', VObj [])]"

text \<open>
  The property read \<^verbatim>\<open>record[columnName]\<close>: the record's own entry when it has one, else
  the inherited property of that name, else undefined.
\<close>

definition lookup :: "ValueRecord \<Rightarrow> string \<Rightarrow> val" where
  "lookup record columnName =
     (case map_of record columnName of
        Some v \<Rightarrow> v
      | None \<Rightarrow>
          (case map_of objectPrototype columnName of
             Some inherited \<Rightarrow> inherited
           | None \<Rightarrow> VUndefined))"

section \<open>The template tag and the spread helpers\<close>

text \<open>
  The body shared by the callbacks of the three spread helpers: serialize the value at the
  next index, append its values, advance the index by their number, and hand the text to
  the rest of the callback, here \<open>wrap\<close>.
\<close>

definition serializeStep ::
  "(string \<Rightarrow> string) \<Rightarrow> val \<Rightarrow> val list \<times> nat \<Rightarrow> error + (string \<times> val list \<times> nat)" where
  "serializeStep wrap columnValue st =
     (case st of (vals, nextParamID) \<Rightarrow>
        (case buildSql columnValue nextParamID of
           Inl e \<Rightarrow> Inl e
         | Inr serialized \<Rightarrow>
             Inr (wrap (text_of serialized),
                  (vals @ values_of serialized, nextParamID + length (values_of serialized)))))"

text \<open>
  \<^verbatim>\<open>sql\<close>: the state of the callback is \<^verbatim>\<open>parameterValues\<close>. The call of the debug logger
  has no effect on the result and is left out.
\<close>

definition sql :: "string list \<Rightarrow> val list \<Rightarrow> error + val QueryConfig" where
  "sql texts vals =
     (case mapS (\<lambda>expression parameterValues.
                   let nextParamID = length parameterValues + 1 in
                   case buildSql expression nextParamID of
                     Inl e \<Rightarrow> Inl e
                   | Inr serialized \<Rightarrow>
                       Inr (text_of serialized, parameterValues @ values_of serialized))
                vals [] of
        Inl e \<Rightarrow> Inl e
      | Inr (serializedValues, parameterValues) \<Rightarrow>
          Inr (QueryConfig (concat (mergeLists texts serializedValues)) parameterValues))"

definition rawExpression :: "string \<Rightarrow> val SqlBuilder" where
  "rawExpression rawValue = rawSqlBuilder rawValue"

definition safeExpression :: "val \<Rightarrow> val SqlBuilder" where
  "safeExpression v = paramSqlBuilder v"

definition spreadAnd :: "(string \<Rightarrow> string) \<Rightarrow> ValueRecord \<Rightarrow> val SqlBuilder" where
  "spreadAnd escapeIdentifier record =
     (let columnValues = filterUndefined record in
      mkSqlBuilder (\<lambda>nextParamID.
        case mapS (\<lambda>(columnName, columnValue).
                     serializeStep (\<lambda>t. escapeIdentifier columnName @ '' = '' @ t) columnValue)
                  columnValues ([], nextParamID) of
          Inl e \<Rightarrow> Inl e
        | Inr (andChain, (vals, _)) \<Rightarrow>
            Inr (QueryConfig (''('' @ join '' AND '' andChain @ '')'') vals)))"

text \<open>
  The two callbacks of \<^verbatim>\<open>spreadInsert\<close>. The inner one reads the column of the record,
  throws when it is undefined and serializes it otherwise; the outer one maps the inner one
  over the columns and joins the cells. Both work on the values and the next index of the
  enclosing function.
\<close>

definition insertCell ::
  "ValueRecord \<Rightarrow> string \<Rightarrow> val list \<times> nat \<Rightarrow> error + (string \<times> val list \<times> nat)" where
  "insertCell record columnName st =
     (let columnValue = lookup record columnName in
      if isUndefined columnValue
      then Inl (MissingColumnValue columnName)
      else serializeStep (\<lambda>t. t) columnValue st)"

definition insertRow ::
  "string list \<Rightarrow> ValueRecord \<Rightarrow> val list \<times> nat \<Rightarrow> error + (string \<times> val list \<times> nat)" where
  "insertRow columns record st =
     (case mapS (insertCell record) columns st of
        Inl e \<Rightarrow> Inl e
      | Inr (cells, st') \<Rightarrow> Inr (join '', '' cells, st'))"

definition spreadInsert :: "(string \<Rightarrow> string) \<Rightarrow> ValueRecord list \<Rightarrow> val SqlBuilder" where
  "spreadInsert escapeIdentifier records =
     (let columns = extractKeys (map filterUndefined records) in
      mkSqlBuilder (\<lambda>nextParamID.
        case mapS (insertRow columns) records ([], nextParamID) of
          Inl e \<Rightarrow> Inl e
        | Inr (rows, (vals, _)) \<Rightarrow>
            Inr (QueryConfig
                   (''('' @ join '', '' (map escapeIdentifier columns) @ '')'' @ '' VALUES '' @
                    ''('' @ join ''), ('' rows @ '')'')
                   vals)))"

definition spreadUpdate :: "(string \<Rightarrow> string) \<Rightarrow> ValueRecord \<Rightarrow> val SqlBuilder" where
  "spreadUpdate escapeIdentifier record =
     (let updateValues = filterUndefined record in
      mkSqlBuilder (\<lambda>nextParamID.
        case mapS (\<lambda>(columnName, columnValue).
                     serializeStep (\<lambda>t. escapeIdentifier columnName @ '' = '' @ t) columnValue)
                  updateValues ([], nextParamID) of
          Inl e \<Rightarrow> Inl e
        | Inr (settersChain, (vals, _)) \<Rightarrow>
            Inr (QueryConfig (join '', '' settersChain) vals)))"

section \<open>Vocabulary of the properties\<close>

text \<open>\<^verbatim>\<open>Array.isArray\<close>.\<close>

fun isArray :: "val \<Rightarrow> bool" where
  "isArray (VArr elements) = True"
| "isArray v = False"

text \<open>
  The running index, in the words of the spec: the values \<open>vs\<close> are serialized one after
  the other into the query objects \<open>qs\<close>, the first at \<open>startIndex\<close> and each later one at
  \<open>startIndex\<close> plus the number of parameters of the ones before it.
\<close>

definition serializedFrom :: "val list \<Rightarrow> nat \<Rightarrow> val QueryConfig list \<Rightarrow> bool" where
  "serializedFrom vs startIndex qs \<longleftrightarrow>
     length qs = length vs \<and>
     (\<forall>i<length vs.
        buildSql (vs ! i) (startIndex + length (concat (map values_of (take i qs)))) = Inr (qs ! i))"

text \<open>
  What of a value decides the text: a plain value is one bound parameter whatever it is, an
  array is the group of the shapes of its elements, a builder is itself.
\<close>

datatype shape = Bound | Group "shape list" | Built "val SqlBuilder"

fun shapeOf :: "val \<Rightarrow> shape" where
  "shapeOf (VBuilder b) = Built b"
| "shapeOf (VArr elements) = Group (map shapeOf elements)"
| "shapeOf v = Bound"

text \<open>
  Two runs agree on the text: both fail with the same error, or both return a query object
  with the same text and the same number of values.
\<close>

definition sameText :: "error + val QueryConfig \<Rightarrow> error + val QueryConfig \<Rightarrow> bool" where
  "sameText r r' \<longleftrightarrow>
     (case (r, r') of
        (Inl e, Inl e') \<Rightarrow> e = e'
      | (Inr q, Inr q') \<Rightarrow> text_of q = text_of q' \<and> length (values_of q) = length (values_of q')
      | _ \<Rightarrow> False)"

text \<open>
  The plain values of an expression that holds no builder, from left to right: an array
  gives those of its elements, any other value gives itself.
\<close>

fun builderFree :: "val \<Rightarrow> bool" where
  "builderFree (VBuilder b) = False"
| "builderFree (VArr elements) = list_all builderFree elements"
| "builderFree v = True"

fun leaves :: "val \<Rightarrow> val list" where
  "leaves (VBuilder b) = []"
| "leaves (VArr elements) = concat (map leaves elements)"
| "leaves v = [v]"

text \<open>
  The placeholder tokens of a text, from left to right: a dollar sign followed by at least
  one decimal digit, read with all the digits that follow.
\<close>

definition is_digit :: "char \<Rightarrow> bool" where
  "is_digit c \<longleftrightarrow> c \<in> set ''0123456789''"

definition digit_val :: "char \<Rightarrow> nat" where
  "digit_val c = of_char c - 48"

definition number_of :: "string \<Rightarrow> nat" where
  "number_of ds = foldl (\<lambda>n c. 10 * n + digit_val c) 0 ds"

function placeholders :: "string \<Rightarrow> nat list" where
  "placeholders [] = []"
| "placeholders (c # cs) =
     (if c = CHR ''$'' \<and> takeWhile is_digit cs \<noteq> []
      then number_of (takeWhile is_digit cs) # placeholders (dropWhile is_digit cs)
      else placeholders cs)"
  by pat_completeness auto
termination
  by (relation "measure length") (auto simp: length_dropWhile_le less_Suc_eq_le)

text \<open>
  Where two texts are put side by side, a placeholder can appear or change only when the
  left one ends in a dollar sign followed by digits, if any, and the right one starts with a
  digit. A list of pieces is seamless after the text \<open>acc\<close> when that happens at no piece.
\<close>

fun startsWithDigit :: "string \<Rightarrow> bool" where
  "startsWithDigit [] = False"
| "startsWithDigit (c # cs) = is_digit c"

fun opensToken :: "string \<Rightarrow> bool" where
  "opensToken [] = False"
| "opensToken (c # cs) = ((c = CHR ''$'' \<and> list_all is_digit cs) \<or> opensToken cs)"

fun seamless :: "string \<Rightarrow> string list \<Rightarrow> bool" where
  "seamless acc [] = True"
| "seamless acc (p # ps) = (\<not> (opensToken acc \<and> startsWithDigit p) \<and> seamless (acc @ p) ps)"

text \<open>
  A value is well numbered when every query object it serializes to holds exactly the
  placeholders from its start index on, one per value, in order.
\<close>

definition wellNumbered :: "val \<Rightarrow> bool" where
  "wellNumbered v \<longleftrightarrow>
     (\<forall>n q. buildSql v n = Inr q \<longrightarrow>
        placeholders (text_of q) = [n..<n + length (values_of q)])"

text \<open>
  The expressions that keep the numbering: plain values, \<^verbatim>\<open>sql.safe\<close> of anything, raw
  fragments that hold no placeholder, builders made by hand that are well numbered, arrays
  of such expressions, and the spread helpers over such expressions with escaped column
  names that hold no placeholder. For \<^verbatim>\<open>spreadInsert\<close> the values are those read from each
  record for each column of the union.
\<close>

inductive keepsNumbering :: "val \<Rightarrow> bool" where
  scalar: "\<not> isSqlBuilder v \<Longrightarrow> \<not> isArray v \<Longrightarrow> keepsNumbering v"
| safe: "keepsNumbering (VBuilder (safeExpression v))"
| raw: "placeholders rawValue = [] \<Longrightarrow> keepsNumbering (VBuilder (rawExpression rawValue))"
| handmade: "wellNumbered (VBuilder b) \<Longrightarrow> keepsNumbering (VBuilder b)"
| array: "\<forall>x \<in> set elements. keepsNumbering x \<Longrightarrow> keepsNumbering (VArr elements)"
| spreadAnd:
    "\<forall>x \<in> set (filterUndefined record).
        placeholders (escapeIdentifier (fst x)) = [] \<and> keepsNumbering (snd x) \<Longrightarrow>
     keepsNumbering (VBuilder (spreadAnd escapeIdentifier record))"
| spreadUpdate:
    "\<forall>x \<in> set (filterUndefined record).
        placeholders (escapeIdentifier (fst x)) = [] \<and> keepsNumbering (snd x) \<Longrightarrow>
     keepsNumbering (VBuilder (spreadUpdate escapeIdentifier record))"
| spreadInsert:
    "\<forall>columnName \<in> set (extractKeys (map filterUndefined records)).
        placeholders (escapeIdentifier columnName) = [] \<and>
        (\<forall>record \<in> set records. keepsNumbering (lookup record columnName)) \<Longrightarrow>
     keepsNumbering (VBuilder (spreadInsert escapeIdentifier records))"

text \<open>
  Two notions for the proofs. A barrier is a text that keeps its neighbours apart: it is
  not empty, does not start with a digit and has no dollar sign. A step of a loop advances
  from one state to the next with a text when the text holds exactly the placeholders from
  the old next index to the new one and as many values were added.
\<close>

definition barrier :: "string \<Rightarrow> bool" where
  "barrier s \<longleftrightarrow> s \<noteq> [] \<and> \<not> startsWithDigit s \<and> CHR ''$'' \<notin> set s"

definition advances :: "val list \<times> nat \<Rightarrow> val list \<times> nat \<Rightarrow> string \<Rightarrow> bool" where
  "advances st st' t \<longleftrightarrow>
     (\<exists>k. length (fst st') = length (fst st) + k \<and> snd st' = snd st + k \<and>
          placeholders t = [snd st..<snd st + k])"

section \<open>The serialization loop\<close>

lemmas eval_simps = placeholder_def show_nat.simps digit_char_def doubleQuoted_def filterUndefined_def
  extractKeys_def lookup_def

lemma buildSql_scalar:
  "\<not> isSqlBuilder v \<Longrightarrow> \<not> isArray v \<Longrightarrow> buildSql v n = Inr (QueryConfig (placeholder n) [v])"
  by (cases v) simp_all

lemma buildSql_VArr:
  "buildSql (VArr elements) n =
     (case mapS (serializeStep (\<lambda>t. t)) elements ([], n) of
        Inl e \<Rightarrow> Inl e
      | Inr (texts, (vals, nextID)) \<Rightarrow> Inr (QueryConfig (''('' @ join '', '' texts @ '')'') vals))"
proof -
  have "(\<lambda>element (vals, nextID).
           case buildSql element nextID of
             Inl e \<Rightarrow> Inl e
           | Inr serialized \<Rightarrow>
               Inr (text_of serialized,
                    (vals @ values_of serialized, nextID + length (values_of serialized))))
        = serializeStep (\<lambda>t. t)"
    by (intro ext) (simp add: serializeStep_def split: prod.split)
  then show ?thesis by simp
qed

lemma serializedFrom_Nil [simp]: "serializedFrom [] n qs \<longleftrightarrow> qs = []"
  by (simp add: serializedFrom_def)

lemma serializedFrom_Cons:
  "serializedFrom (v # vs) n qs' \<longleftrightarrow>
     (\<exists>q qs. qs' = q # qs \<and> buildSql v n = Inr q \<and> serializedFrom vs (n + length (values_of q)) qs)"
proof
  assume a: "serializedFrom (v # vs) n qs'"
  then obtain q qs where qs': "qs' = q # qs"
    by (cases qs') (auto simp: serializedFrom_def)
  from a qs' have len: "length qs = length vs"
    by (simp add: serializedFrom_def)
  from a qs' have all: "\<And>i. i < Suc (length vs) \<Longrightarrow>
      buildSql ((v # vs) ! i) (n + length (concat (map values_of (take i (q # qs))))) = Inr ((q # qs) ! i)"
    by (simp add: serializedFrom_def)
  from all [of 0] have hd: "buildSql v n = Inr q" by simp
  have "serializedFrom vs (n + length (values_of q)) qs"
    unfolding serializedFrom_def
  proof (intro conjI allI impI)
    show "length qs = length vs" by (rule len)
  next
    fix i assume "i < length vs"
    then have "Suc i < Suc (length vs)" by simp
    from all [OF this] show "buildSql (vs ! i)
        (n + length (values_of q) + length (concat (map values_of (take i qs)))) = Inr (qs ! i)"
      by (simp add: add.assoc)
  qed
  with qs' hd show "\<exists>q qs. qs' = q # qs \<and> buildSql v n = Inr q \<and> serializedFrom vs (n + length (values_of q)) qs"
    by blast
next
  assume "\<exists>q qs. qs' = q # qs \<and> buildSql v n = Inr q \<and> serializedFrom vs (n + length (values_of q)) qs"
  then obtain q qs where qs': "qs' = q # qs" and hd: "buildSql v n = Inr q"
    and tl: "serializedFrom vs (n + length (values_of q)) qs" by blast
  show "serializedFrom (v # vs) n qs'"
    unfolding serializedFrom_def qs'
  proof (intro conjI allI impI)
    show "length (q # qs) = length (v # vs)" using tl by (simp add: serializedFrom_def)
  next
    fix i assume i: "i < length (v # vs)"
    show "buildSql ((v # vs) ! i) (n + length (concat (map values_of (take i (q # qs))))) = Inr ((q # qs) ! i)"
    proof (cases i)
      case 0
      then show ?thesis using hd by simp
    next
      case (Suc j)
      with i have "j < length vs" by simp
      with tl have "buildSql (vs ! j) (n + length (values_of q) + length (concat (map values_of (take j qs)))) = Inr (qs ! j)"
        by (simp add: serializedFrom_def)
      then show ?thesis using Suc by (simp add: add.assoc)
    qed
  qed
qed

lemma serializeStep_apply:
  "serializeStep w v (vals, n) =
     (case buildSql v n of
        Inl e \<Rightarrow> Inl e
      | Inr q \<Rightarrow> Inr (w (text_of q), (vals @ values_of q, n + length (values_of q))))"
  by (simp add: serializeStep_def)

lemma mapS_serializeStep_complete:
  "serializedFrom (map g xs) n qs \<Longrightarrow>
   mapS (\<lambda>x. serializeStep (w x) (g x)) xs (vals, n) =
     Inr (map2 (\<lambda>x q. w x (text_of q)) xs qs,
          (vals @ concat (map values_of qs), n + length (concat (map values_of qs))))"
proof (induction xs arbitrary: vals n qs)
  case Nil
  then show ?case by simp
next
  case (Cons x xs)
  from Cons.prems obtain q qs' where qs: "qs = q # qs'" and hd: "buildSql (g x) n = Inr q"
    and tl: "serializedFrom (map g xs) (n + length (values_of q)) qs'"
    by (auto simp: serializedFrom_Cons)
  show ?case
    by (simp add: serializeStep_apply hd qs Cons.IH [OF tl] add.assoc)
qed

lemma mapS_serializeStep_sound:
  "mapS (\<lambda>x. serializeStep (w x) (g x)) xs (vals, n) = Inr (ts, st) \<Longrightarrow>
   \<exists>qs. serializedFrom (map g xs) n qs \<and>
        ts = map2 (\<lambda>x q. w x (text_of q)) xs qs \<and>
        st = (vals @ concat (map values_of qs), n + length (concat (map values_of qs)))"
proof (induction xs arbitrary: vals n ts st)
  case Nil
  then show ?case by auto
next
  case (Cons x xs)
  from Cons.prems obtain q where hd: "buildSql (g x) n = Inr q"
    by (auto simp: serializeStep_apply split: sum.splits)
  from Cons.prems hd obtain ts' where
    tl: "mapS (\<lambda>x. serializeStep (w x) (g x)) xs (vals @ values_of q, n + length (values_of q)) = Inr (ts', st)"
    and ts: "ts = w x (text_of q) # ts'"
    by (auto simp: serializeStep_apply split: sum.splits)
  from Cons.IH [OF tl] obtain qs where qs: "serializedFrom (map g xs) (n + length (values_of q)) qs"
    and ts': "ts' = map2 (\<lambda>x q. w x (text_of q)) xs qs"
    and st: "st = ((vals @ values_of q) @ concat (map values_of qs),
                   n + length (values_of q) + length (concat (map values_of qs)))"
    by blast
  have "serializedFrom (map g (x # xs)) n (q # qs)"
    using hd qs by (simp add: serializedFrom_Cons)
  moreover have "ts = map2 (\<lambda>x q. w x (text_of q)) (x # xs) (q # qs)"
    using ts ts' by simp
  moreover have "st = (vals @ concat (map values_of (q # qs)), n + length (concat (map values_of (q # qs))))"
    using st by (simp add: add.assoc)
  ultimately show ?case by blast
qed

lemma case_prod_step:
  "(\<lambda>(columnName, columnValue). serializeStep (w columnName) columnValue) =
   (\<lambda>x. serializeStep (w (fst x)) (snd x))"
  by (simp add: case_prod_unfold)

lemma sql_callback:
  "mapS (\<lambda>expression parameterValues.
            let nextParamID = length parameterValues + 1 in
            case buildSql expression nextParamID of
              Inl e \<Rightarrow> Inl e
            | Inr serialized \<Rightarrow> Inr (text_of serialized, parameterValues @ values_of serialized))
        xs pv =
   (case mapS (\<lambda>x. serializeStep (\<lambda>t. t) x) xs (pv, length pv + 1) of
      Inl e \<Rightarrow> Inl e
    | Inr (ts, (vals, n)) \<Rightarrow> Inr (ts, vals))"
proof (induction xs arbitrary: pv)
  case Nil
  then show ?case by simp
next
  case (Cons x xs)
  show ?case
    using Cons.IH by (simp add: serializeStep_apply split: sum.split prod.split)
qed

lemma sql_unfold:
  "sql texts vals =
     (case mapS (\<lambda>x. serializeStep (\<lambda>t. t) x) vals ([], 1) of
        Inl e \<Rightarrow> Inl e
      | Inr (ts, (pv, n)) \<Rightarrow> Inr (QueryConfig (concat (mergeLists texts ts)) pv))"
  unfolding sql_def sql_callback by (simp split: sum.split prod.split)

lemma concat_mergeLists:
  "length ts = length ls \<Longrightarrow>
   concat (mergeLists (l0 # ls) ts) = l0 @ concat (map2 (\<lambda>t l. t @ l) ts ls)"
  by (induction ts ls arbitrary: l0 rule: list_induct2) simp_all

lemma spread_builder_iff:
  "(case mapS (\<lambda>(columnName, columnValue). serializeStep (w columnName) columnValue)
            entries ([], n) of
      Inl e \<Rightarrow> Inl e
    | Inr (chain, (vals, nextID)) \<Rightarrow> Inr (QueryConfig (fin chain) vals)) = Inr q \<longleftrightarrow>
   (\<exists>qs. serializedFrom (map snd entries) n qs \<and>
         q = QueryConfig (fin (map2 (\<lambda>(columnName, columnValue) s. w columnName (text_of s)) entries qs))
               (concat (map values_of qs)))"
  (is "?lhs = Inr q \<longleftrightarrow> ?rhs")
proof
  assume "?lhs = Inr q"
  then obtain chain st where
    m: "mapS (\<lambda>x. serializeStep (w (fst x)) (snd x)) entries ([], n) = Inr (chain, st)"
    and q: "q = QueryConfig (fin chain) (fst st)"
    by (auto simp: case_prod_step split: sum.splits prod.splits)
  from mapS_serializeStep_sound [OF m] q show ?rhs
    by (auto simp: case_prod_unfold)
next
  assume ?rhs
  then obtain qs where sf: "serializedFrom (map snd entries) n qs"
    and q: "q = QueryConfig (fin (map2 (\<lambda>(columnName, columnValue) s. w columnName (text_of s)) entries qs))
               (concat (map values_of qs))"
    by blast
  from mapS_serializeStep_complete [where w = "\<lambda>x. w (fst x)" and vals = "[]", OF sf]
  show "?lhs = Inr q"
    by (simp add: case_prod_step q case_prod_unfold)
qed

lemma serializedFrom_length: "serializedFrom vs n qs \<Longrightarrow> length qs = length vs"
  by (simp add: serializedFrom_def)

lemma serializedFrom_append:
  "serializedFrom xs n qs \<Longrightarrow> serializedFrom ys (n + length (concat (map values_of qs))) rs
   \<Longrightarrow> serializedFrom (xs @ ys) n (qs @ rs)"
proof (induction xs arbitrary: n qs)
  case Nil
  then show ?case by simp
next
  case (Cons x xs)
  from Cons.prems(1) obtain q qs' where qs: "qs = q # qs'" and hd: "buildSql x n = Inr q"
    and tl: "serializedFrom xs (n + length (values_of q)) qs'"
    by (auto simp: serializedFrom_Cons)
  from Cons.prems(2) have "serializedFrom ys (n + length (values_of q) + length (concat (map values_of qs'))) rs"
    by (simp add: qs add.assoc)
  from Cons.IH [OF tl this] show ?case
    by (simp add: serializedFrom_Cons qs hd)
qed

lemma serializedFrom_scalars:
  "\<forall>v \<in> set vs. \<not> isSqlBuilder v \<and> \<not> isArray v \<Longrightarrow>
   serializedFrom vs n (map (\<lambda>(i, v). QueryConfig (placeholder i) [v]) (enumerate n vs))"
  by (induction vs arbitrary: n) (simp_all add: serializedFrom_Cons buildSql_scalar)

lemma concat_values_scalars:
  "concat (map values_of (map (\<lambda>(i, v). QueryConfig (placeholder i) [v]) (enumerate n vs))) = vs"
  by (induction vs arbitrary: n) simp_all

lemma mergeLists_concat_tail:
  "concat (mergeLists (a # texts) ts) =
     a @ (case ts of [] \<Rightarrow> concat texts | y # ys \<Rightarrow> y @ concat (mergeLists texts ys))"
  by (cases ts) simp_all

lemma map2_text_of:
  "length qs = length vs \<Longrightarrow> map2 (\<lambda>x q. text_of q) vs qs = map text_of qs"
  by (simp add: list_eq_iff_nth_eq)

lemma serialize_list_iff:
  "(case mapS (serializeStep (\<lambda>t. t)) vs ([], n) of
      Inl e \<Rightarrow> Inl e
    | Inr (ts, (vals, nextID)) \<Rightarrow> Inr (QueryConfig (fin ts) vals)) = Inr q \<longleftrightarrow>
   (\<exists>qs. serializedFrom vs n qs \<and>
         q = QueryConfig (fin (map text_of qs)) (concat (map values_of qs)))"
  (is "?lhs = Inr q \<longleftrightarrow> ?rhs")
proof
  assume "?lhs = Inr q"
  then obtain ts st where m: "mapS (\<lambda>x. serializeStep (\<lambda>t. t) x) vs ([], n) = Inr (ts, st)"
    and q: "q = QueryConfig (fin ts) (fst st)"
    by (auto split: sum.splits prod.splits)
  from mapS_serializeStep_sound [where g = "\<lambda>x. x" and w = "\<lambda>x t. t", OF m]
  obtain qs where sf: "serializedFrom vs n qs" and ts: "ts = map2 (\<lambda>x q. text_of q) vs qs"
    and st: "st = (concat (map values_of qs), n + length (concat (map values_of qs)))"
    by auto
  from sf ts have "ts = map text_of qs"
    by (simp add: map2_text_of serializedFrom_length)
  with sf st q show ?rhs by auto
next
  assume ?rhs
  then obtain qs where sf: "serializedFrom vs n qs"
    and q: "q = QueryConfig (fin (map text_of qs)) (concat (map values_of qs))"
    by blast
  from mapS_serializeStep_complete [where g = "\<lambda>x. x" and w = "\<lambda>x t. t" and vals = "[]", of vs n qs] sf
  show "?lhs = Inr q"
    by (simp add: q map2_text_of serializedFrom_length)
qed

lemma sql_iff:
  "sql texts vals = Inr q \<longleftrightarrow>
     (\<exists>qs. serializedFrom vals 1 qs \<and>
           q = QueryConfig (concat (mergeLists texts (map text_of qs))) (concat (map values_of qs)))"
  unfolding sql_unfold
  by (rule serialize_list_iff [where fin = "\<lambda>ts. concat (mergeLists texts ts)"])

lemma spreadAnd_iff:
  "buildSql (VBuilder (spreadAnd escapeIdentifier record)) n = Inr q \<longleftrightarrow>
     (\<exists>qs. serializedFrom (map snd (filterUndefined record)) n qs \<and>
           q = QueryConfig
                 (''('' @ join '' AND '' (map2 (\<lambda>(columnName, columnValue) s.
                                      escapeIdentifier columnName @ '' = '' @ text_of s)
                                 (filterUndefined record) qs) @ '')'')
                 (concat (map values_of qs)))"
  unfolding spreadAnd_def mkSqlBuilder_def Let_def buildSql.simps buildFragment.simps
  by (rule spread_builder_iff [where fin = "\<lambda>chain. ''('' @ join '' AND '' chain @ '')''"])

lemma map2_enumerate_scalars:
  "map2 (\<lambda>(columnName, columnValue) s. w columnName (text_of s)) entries
        (map (\<lambda>(i, v). QueryConfig (placeholder i) [v]) (enumerate n (map snd entries))) =
   map (\<lambda>(i, (columnName, columnValue)). w columnName (placeholder i)) (enumerate n entries)"
  by (induction entries arbitrary: n) (simp_all add: case_prod_unfold)

lemma spreadAnd_scalars:
  assumes "\<forall>(columnName, columnValue) \<in> set (filterUndefined record).
             \<not> isSqlBuilder columnValue \<and> \<not> isArray columnValue"
  shows "buildSql (VBuilder (spreadAnd escapeIdentifier record)) n =
     Inr (QueryConfig
           (''('' @ join '' AND ''
                     (map (\<lambda>(i, (columnName, columnValue)).
                             escapeIdentifier columnName @ '' = '' @ placeholder i)
                        (enumerate n (filterUndefined record))) @ '')'')
           (map snd (filterUndefined record)))"
proof -
  let ?vs = "map snd (filterUndefined record)"
  let ?qs = "map (\<lambda>(i, v). QueryConfig (placeholder i) [v]) (enumerate n ?vs)"
  from assms have "\<forall>v \<in> set ?vs. \<not> isSqlBuilder v \<and> \<not> isArray v"
    by auto
  then have sf: "serializedFrom ?vs n ?qs"
    by (rule serializedFrom_scalars)
  have chain: "map2 (\<lambda>(columnName, columnValue) s. escapeIdentifier columnName @ '' = '' @ text_of s)
                 (filterUndefined record) ?qs =
               map (\<lambda>(i, (columnName, columnValue)). escapeIdentifier columnName @ '' = '' @ placeholder i)
                 (enumerate n (filterUndefined record))"
    by (rule map2_enumerate_scalars [where w = "\<lambda>c t. escapeIdentifier c @ '' = '' @ t"])
  have vals: "concat (map values_of ?qs) = ?vs"
    by (rule concat_values_scalars)
  show ?thesis
    unfolding spreadAnd_iff
    by (rule exI [of _ ?qs]) (simp only: sf chain vals simp_thms)
qed

lemma mapS_append:
  "mapS f (xs @ ys) st =
     (case mapS f xs st of
        Inl e \<Rightarrow> Inl e
      | Inr (ts, st') \<Rightarrow>
          (case mapS f ys st' of
             Inl e \<Rightarrow> Inl e
           | Inr (us, st'') \<Rightarrow> Inr (ts @ us, st'')))"
  by (induction xs arbitrary: st) (auto split: sum.splits prod.splits)

lemma sql_after:
  assumes "serializedFrom preceding 1 qs"
  shows "sql texts (preceding @ [x]) =
     (case buildSql x (1 + length (concat (map values_of qs))) of
        Inl e \<Rightarrow> Inl e
      | Inr f \<Rightarrow>
          Inr (QueryConfig (concat (mergeLists texts (map text_of qs @ [text_of f])))
                 (concat (map values_of qs) @ values_of f)))"
proof -
  from mapS_serializeStep_complete [where g = "\<lambda>x. x" and w = "\<lambda>x t. t" and vals = "[]", of preceding 1 qs] assms
  have "mapS (serializeStep (\<lambda>t. t)) preceding ([], 1) =
      Inr (map text_of qs, (concat (map values_of qs), 1 + length (concat (map values_of qs))))"
    by (simp add: map2_text_of serializedFrom_length)
  then show ?thesis
    by (simp add: sql_unfold mapS_append serializeStep_apply split: sum.split)
qed

lemma set_extractKeys_aux:
  "set (foldl (\<lambda>keys key. if key \<in> set keys then keys else keys @ [key]) acc ks) = set acc \<union> set ks"
  by (induction ks arbitrary: acc) auto

lemma set_extractKeys: "set (extractKeys records) = (\<Union>r \<in> set records. fst ` set r)"
  by (simp add: extractKeys_def set_extractKeys_aux)

lemma isUndefined_iff: "isUndefined v \<longleftrightarrow> v = VUndefined"
  by (cases v) simp_all

lemma mapS_tail_fails:
  "f x st = Inr res \<Longrightarrow> mapS f xs (snd res) = Inl e \<Longrightarrow> mapS f (x # xs) st = Inl e"
  by (cases res) simp

lemma insertCell_fails:
  "c \<in> set columns \<Longrightarrow> lookup r c = VUndefined \<Longrightarrow> \<exists>e. mapS (insertCell r) columns st = Inl e"
proof (induction columns arbitrary: st)
  case Nil
  then show ?case by simp
next
  case (Cons x columns)
  show ?case
  proof (cases "insertCell r x st")
    case (Inl e)
    then show ?thesis by simp
  next
    case (Inr res)
    then have "x \<noteq> c"
      using Cons.prems(2) by (auto simp: insertCell_def)
    with Cons.prems have "c \<in> set columns" by simp
    from Cons.IH [OF this Cons.prems(2)] obtain e where "mapS (insertCell r) columns (snd res) = Inl e"
      by blast
    with Inr show ?thesis
      by (blast intro: mapS_tail_fails)
  qed
qed

lemma insertRow_fails:
  "r \<in> set records \<Longrightarrow> c \<in> set columns \<Longrightarrow> lookup r c = VUndefined \<Longrightarrow>
   \<exists>e. mapS (insertRow columns) records st = Inl e"
proof (induction records arbitrary: st)
  case Nil
  then show ?case by simp
next
  case (Cons x records)
  show ?case
  proof (cases "insertRow columns x st")
    case (Inl e)
    then show ?thesis by simp
  next
    case (Inr res)
    have "x \<noteq> r"
    proof
      assume "x = r"
      with insertCell_fails [OF Cons.prems(2,3), of st] Inr show False
        by (auto simp: insertRow_def)
    qed
    with Cons.prems have "r \<in> set records" by simp
    from Cons.IH [OF this Cons.prems(2,3)] obtain e where "mapS (insertRow columns) records (snd res) = Inl e"
      by blast
    with Inr show ?thesis
      by (blast intro: mapS_tail_fails)
  qed
qed

lemma insertCell_first_missing:
  assumes "\<forall>c m. \<exists>q. buildSql (lookup r c) m = Inr q"
  shows "find (\<lambda>c. isUndefined (lookup r c)) columns = Some c \<Longrightarrow>
         mapS (insertCell r) columns st = Inl (MissingColumnValue c)"
proof (induction columns arbitrary: st)
  case Nil
  then show ?case by simp
next
  case (Cons x columns)
  show ?case
  proof (cases "isUndefined (lookup r x)")
    case True
    with Cons.prems show ?thesis by (simp add: insertCell_def)
  next
    case False
    from assms obtain q where "buildSql (lookup r x) (snd st) = Inr q" by blast
    with False obtain res where res: "insertCell r x st = Inr res"
      by (cases st) (simp add: insertCell_def serializeStep_apply)
    from False Cons.prems have "find (\<lambda>c. isUndefined (lookup r c)) columns = Some c" by simp
    from Cons.IH [OF this] res show ?thesis
      by (simp split: prod.split)
  qed
qed

lemma insertCell_none_missing:
  assumes "\<forall>c m. \<exists>q. buildSql (lookup r c) m = Inr q"
  shows "\<forall>c \<in> set columns. \<not> isUndefined (lookup r c) \<Longrightarrow>
         \<exists>res. mapS (insertCell r) columns st = Inr res"
proof (induction columns arbitrary: st)
  case Nil
  then show ?case by simp
next
  case (Cons x columns)
  from assms obtain q where "buildSql (lookup r x) (snd st) = Inr q" by blast
  with Cons.prems obtain res where res: "insertCell r x st = Inr res"
    by (cases st) (simp add: insertCell_def serializeStep_apply)
  from Cons.prems have "\<forall>c \<in> set columns. \<not> isUndefined (lookup r c)" by simp
  from Cons.IH [OF this, of "snd res"] obtain res' where "mapS (insertCell r) columns (snd res) = Inr res'"
    by blast
  with res show ?case
    by (cases res) (simp split: prod.split)
qed

lemma insertRow_first_missing:
  assumes "\<forall>r \<in> set records. \<forall>c m. \<exists>q. buildSql (lookup r c) m = Inr q"
  shows "find (\<lambda>r. \<exists>c \<in> set columns. isUndefined (lookup r c)) records = Some r0 \<Longrightarrow>
         find (\<lambda>c. isUndefined (lookup r0 c)) columns = Some c0 \<Longrightarrow>
         mapS (insertRow columns) records st = Inl (MissingColumnValue c0)"
  using assms
proof (induction records arbitrary: st)
  case Nil
  then show ?case by simp
next
  case (Cons x records)
  from Cons.prems(3) have hx: "\<forall>c m. \<exists>q. buildSql (lookup x c) m = Inr q" by simp
  show ?case
  proof (cases "\<exists>c \<in> set columns. isUndefined (lookup x c)")
    case True
    with Cons.prems(1) have "r0 = x" by simp
    with insertCell_first_missing [OF hx, of columns c0 st] Cons.prems(2)
    show ?thesis by (simp add: insertRow_def)
  next
    case False
    then have "\<forall>c \<in> set columns. \<not> isUndefined (lookup x c)" by blast
    from insertCell_none_missing [OF hx this, of st] obtain res where "insertRow columns x st = Inr res"
      by (auto simp: insertRow_def split: prod.split)
    moreover from False Cons.prems(1) have
      "find (\<lambda>r. \<exists>c \<in> set columns. isUndefined (lookup r c)) records = Some r0" by simp
    moreover from Cons.prems(3) have "\<forall>r \<in> set records. \<forall>c m. \<exists>q. buildSql (lookup r c) m = Inr q"
      by simp
    ultimately show ?thesis
      using Cons.IH [OF _ Cons.prems(2), of "snd res"] by (cases res) (simp split: prod.split)
  qed
qed

lemma spreadInsert_unfold:
  "buildSql (VBuilder (spreadInsert escapeIdentifier records)) n =
     (case mapS (insertRow (extractKeys (map filterUndefined records))) records ([], n) of
        Inl e \<Rightarrow> Inl e
      | Inr (rows, (vals, nextID)) \<Rightarrow>
          Inr (QueryConfig
                 (''('' @ join '', '' (map escapeIdentifier (extractKeys (map filterUndefined records))) @ '')'' @
                  '' VALUES '' @ ''('' @ join ''), ('' rows @ '')'')
                 vals))"
  by (simp add: spreadInsert_def mkSqlBuilder_def Let_def)

lemma sql_fails_on_failing_expression:
  assumes "x \<in> set expressions" and "\<forall>n. \<exists>e. buildSql x n = Inl e"
  shows "\<exists>e. sql texts expressions = Inl e"
proof (cases "sql texts expressions")
  case (Inl e)
  then show ?thesis by blast
next
  case (Inr q)
  then obtain qs where sf: "serializedFrom expressions 1 qs"
    unfolding sql_iff by blast
  from assms(1) obtain i where i: "i < length expressions" and x: "expressions ! i = x"
    by (auto simp: in_set_conv_nth)
  from sf i x have "buildSql x (1 + length (concat (map values_of (take i qs)))) = Inr (qs ! i)"
    by (auto simp: serializedFrom_def)
  with assms(2) show ?thesis
    by (metis sum.distinct(1))
qed

subsection \<open>Runs that differ in bound values\<close>

lemma sameText_simps [simp]:
  "sameText (Inl e) (Inl e') \<longleftrightarrow> e = e'"
  "sameText (Inr q) (Inr q') \<longleftrightarrow> text_of q = text_of q' \<and> length (values_of q) = length (values_of q')"
  "sameText (Inl e) (Inr q') \<longleftrightarrow> False"
  "sameText (Inr q) (Inl e') \<longleftrightarrow> False"
  by (simp_all add: sameText_def)

lemma sameText_refl [simp]: "sameText r r"
  by (cases r) simp_all

text \<open>Two runs of the loop over lists whose elements serialize alike.\<close>

lemma mapS_sameText:
  assumes "list_all2 (\<lambda>v v'. \<forall>m. sameText (buildSql v m) (buildSql v' m)) vs vs'"
    and "length vals = length vals'"
  shows "case (mapS (serializeStep w) vs (vals, n), mapS (serializeStep w) vs' (vals', n)) of
           (Inl e, Inl e') \<Rightarrow> e = e'
         | (Inr (ts, (pv, k)), Inr (ts', (pv', k'))) \<Rightarrow> ts = ts' \<and> length pv = length pv' \<and> k = k'
         | _ \<Rightarrow> False"
  using assms
proof (induction vs vs' arbitrary: vals vals' n rule: list_all2_induct)
  case Nil
  then show ?case by simp
next
  case (Cons v vs v' vs')
  from Cons.hyps(1) have hd: "sameText (buildSql v n) (buildSql v' n)" by blast
  show ?case
  proof (cases "buildSql v n")
    case (Inl e)
    with hd show ?thesis
      by (cases "buildSql v' n") (simp_all add: serializeStep_apply)
  next
    case (Inr q)
    with hd obtain q' where q': "buildSql v' n = Inr q'" and t: "text_of q = text_of q'"
      and l: "length (values_of q) = length (values_of q')"
      by (cases "buildSql v' n") simp_all
    from Cons.prems l have "length (vals @ values_of q) = length (vals' @ values_of q')" by simp
    from Cons.IH [OF this, of "n + length (values_of q)"] show ?thesis
      by (auto simp add: serializeStep_apply Inr q' t l [symmetric] split: sum.splits prod.splits)
  qed
qed

lemma val_cases_induct [case_names Builder Array Scalar]:
  assumes "\<And>b. P (VBuilder b)"
    and "\<And>elements. (\<And>x. x \<in> set elements \<Longrightarrow> P x) \<Longrightarrow> P (VArr elements)"
    and "\<And>v. \<not> isSqlBuilder v \<Longrightarrow> \<not> isArray v \<Longrightarrow> P v"
  shows "P v"
proof -
  have "P v" for n :: nat
    by (induction v n rule: buildSql.induct) (auto intro: assms)
  then show ?thesis by simp
qed

lemma shapeOf_Built: "shapeOf w = Built b \<longleftrightarrow> w = VBuilder b"
  by (cases w) auto

lemma shapeOf_Group: "shapeOf w = Group ss \<longleftrightarrow> (\<exists>es. w = VArr es \<and> map shapeOf es = ss)"
  by (cases w) auto

lemma shapeOf_Bound: "shapeOf w = Bound \<longleftrightarrow> \<not> isSqlBuilder w \<and> \<not> isArray w"
  by (cases w) auto

lemma buildSql_sameText:
  "shapeOf v = shapeOf w \<Longrightarrow> sameText (buildSql v n) (buildSql w n)"
proof (induction v arbitrary: w n rule: val_cases_induct)
  case (Builder b)
  then have "w = VBuilder b" by (simp add: shapeOf_Built [symmetric])
  then show ?case by simp
next
  case (Array elements)
  from Array.prems have "shapeOf w = Group (map shapeOf elements)" by simp
  then obtain es where w: "w = VArr es" and sh: "map shapeOf es = map shapeOf elements"
    unfolding shapeOf_Group by blast
  have "list_all2 (\<lambda>v v'. \<forall>m. sameText (buildSql v m) (buildSql v' m)) elements es"
    unfolding list_all2_conv_all_nth
  proof (intro conjI allI impI)
    from sh show len: "length elements = length es" by (metis length_map)
    fix i m assume i: "i < length elements"
    with sh len have "shapeOf (elements ! i) = shapeOf (es ! i)"
      by (metis nth_map)
    with i show "sameText (buildSql (elements ! i) m) (buildSql (es ! i) m)"
      by (intro Array.IH) simp_all
  qed
  from mapS_sameText [OF this, of "[]" "[]" "\<lambda>t. t" n] show ?case
    unfolding w buildSql_VArr by (auto split: sum.splits prod.splits)
next
  case (Scalar v)
  from Scalar.hyps have "shapeOf v = Bound" by (simp add: shapeOf_Bound)
  with Scalar.prems have "shapeOf w = Bound" by simp
  then have "\<not> isSqlBuilder w \<and> \<not> isArray w"
    by (simp add: shapeOf_Bound)
  with Scalar.hyps show ?case by (simp add: buildSql_scalar)
qed

lemma serializedFrom_leaves:
  "\<forall>x \<in> set es. \<forall>n. \<exists>t. buildSql x n = Inr (QueryConfig t (leaves x)) \<Longrightarrow>
   \<exists>qs. serializedFrom es n qs \<and> map values_of qs = map leaves es"
proof (induction es arbitrary: n)
  case Nil
  then show ?case by simp
next
  case (Cons x es)
  from Cons.prems have "\<exists>t. buildSql x n = Inr (QueryConfig t (leaves x))"
    by simp
  then obtain t where hd: "buildSql x n = Inr (QueryConfig t (leaves x))" ..
  from Cons.prems have "\<forall>x \<in> set es. \<forall>n. \<exists>t. buildSql x n = Inr (QueryConfig t (leaves x))"
    by simp
  from Cons.IH [OF this, of "n + length (leaves x)"] obtain qs
    where "serializedFrom es (n + length (leaves x)) qs" "map values_of qs = map leaves es"
    by blast
  with hd have "serializedFrom (x # es) n (QueryConfig t (leaves x) # qs) \<and>
      map values_of (QueryConfig t (leaves x) # qs) = map leaves (x # es)"
    by (simp add: serializedFrom_Cons)
  then show ?case by blast
qed

lemma buildSql_leaves:
  "builderFree v \<Longrightarrow> \<exists>t. buildSql v n = Inr (QueryConfig t (leaves v))"
proof (induction v arbitrary: n rule: val_cases_induct)
  case (Builder b)
  then show ?case by simp
next
  case (Array elements)
  then have "\<forall>x \<in> set elements. \<forall>n. \<exists>t. buildSql x n = Inr (QueryConfig t (leaves x))"
    by (simp add: list_all_iff)
  from serializedFrom_leaves [OF this, of n] obtain qs
    where sf: "serializedFrom elements n qs" and vs: "map values_of qs = map leaves elements"
    by blast
  have "buildSql (VArr elements) n =
      Inr (QueryConfig (''('' @ join '', '' (map text_of qs) @ '')'') (concat (map values_of qs)))"
    unfolding buildSql_VArr serialize_list_iff [where fin = "\<lambda>ts. ''('' @ join '', '' ts @ '')''"]
    using sf by blast
  then show ?case by (simp add: vs)
next
  case (Scalar v)
  then have "leaves v = [v]" by (cases v) simp_all
  with Scalar show ?case by (simp add: buildSql_scalar)
qed

lemma sql_leaves:
  assumes "\<forall>e \<in> set expressions. builderFree e"
  shows "\<exists>t. sql texts expressions = Inr (QueryConfig t (concat (map leaves expressions)))"
proof -
  from assms have "\<forall>x \<in> set expressions. \<forall>n. \<exists>t. buildSql x n = Inr (QueryConfig t (leaves x))"
    by (simp add: buildSql_leaves)
  from serializedFrom_leaves [OF this, of 1] obtain qs
    where sf: "serializedFrom expressions 1 qs" and vs: "map values_of qs = map leaves expressions"
    by blast
  have "sql texts expressions =
      Inr (QueryConfig (concat (mergeLists texts (map text_of qs))) (concat (map values_of qs)))"
    unfolding sql_iff using sf by blast
  then show ?thesis by (simp add: vs)
qed

subsection \<open>Placeholder tokens\<close>

lemma digit_char_props:
  "d < 10 \<Longrightarrow> is_digit (digit_char d) \<and> digit_val (digit_char d) = d"
proof -
  assume "d < 10"
  then have "d \<in> {0, 1, 2, 3, 4, 5, 6, 7, 8, 9}" by auto
  then show ?thesis
    by (auto simp: digit_char_def is_digit_def digit_val_def)
qed

lemma number_of_snoc: "number_of (ds @ [c]) = 10 * number_of ds + digit_val c"
  by (simp add: number_of_def)

lemma show_nat_digits: "\<forall>c \<in> set (show_nat n). is_digit c"
proof (induction n rule: show_nat.induct)
  case (1 n)
  show ?case
  proof (cases "n < 10")
    case True
    then show ?thesis by (subst show_nat.simps) (simp add: digit_char_props)
  next
    case False
    with 1 show ?thesis by (subst show_nat.simps) (simp add: digit_char_props)
  qed
qed

lemma show_nat_nonempty: "show_nat n \<noteq> []"
  by (subst show_nat.simps) simp

lemma number_of_show_nat: "number_of (show_nat n) = n"
proof (induction n rule: show_nat.induct)
  case (1 n)
  show ?case
  proof (cases "n < 10")
    case True
    then show ?thesis
      by (subst show_nat.simps) (simp add: number_of_def digit_char_props)
  next
    case False
    with 1 have "number_of (show_nat (n div 10)) = n div 10" by simp
    with False show ?thesis
      by (subst show_nat.simps) (simp add: number_of_snoc digit_char_props)
  qed
qed

lemma takeWhile_digit_iff: "takeWhile is_digit s = [] \<longleftrightarrow> \<not> startsWithDigit s"
  by (cases s) simp_all

lemma takeWhile_append_stop:
  "takeWhile P b = [] \<Longrightarrow> takeWhile P (a @ b) = takeWhile P a"
  by (induction a) simp_all

lemma dropWhile_append_stop:
  "takeWhile P b = [] \<Longrightarrow> dropWhile P (a @ b) = dropWhile P a @ b"
  by (induction a) (simp_all add: dropWhile_eq_self_iff takeWhile_eq_Nil_iff)

lemma placeholders_append:
  "\<not> startsWithDigit b \<Longrightarrow> placeholders (a @ b) = placeholders a @ placeholders b"
proof (induction a rule: placeholders.induct)
  case 1
  then show ?case by simp
next
  case (2 c cs)
  from "2.prems" have stop: "takeWhile is_digit b = []"
    by (simp add: takeWhile_digit_iff)
  show ?case
  proof (cases "c = CHR ''$'' \<and> takeWhile is_digit cs \<noteq> []")
    case True
    with "2.IH" "2.prems" show ?thesis
      by (simp add: takeWhile_append_stop [OF stop] dropWhile_append_stop [OF stop])
  next
    case False
    with "2.IH" "2.prems" show ?thesis
      by (auto simp: takeWhile_append_stop [OF stop])
  qed
qed

lemma placeholders_none: "CHR ''$'' \<notin> set s \<Longrightarrow> placeholders s = []"
  by (induction s rule: placeholders.induct) auto

lemma placeholders_placeholder: "placeholders (placeholder n) = [n]"
proof -
  have tw: "takeWhile is_digit (show_nat n) = show_nat n"
    using show_nat_digits by (simp add: takeWhile_eq_all_conv)
  have dw: "dropWhile is_digit (show_nat n) = []"
    using show_nat_digits by simp
  show ?thesis
    unfolding placeholder_def
    by (simp only: placeholders.simps tw dw show_nat_nonempty number_of_show_nat) simp
qed

lemma startsWithDigit_placeholder: "\<not> startsWithDigit (placeholder n)"
  by (simp add: placeholder_def is_digit_def)

lemma startsWithDigit_append:
  "startsWithDigit (a @ b) = (if a = [] then startsWithDigit b else startsWithDigit a)"
  by (cases a) simp_all

lemma serializedFrom_unique:
  "serializedFrom vs n qs \<Longrightarrow> serializedFrom vs n qs' \<Longrightarrow> qs = qs'"
  by (induction vs arbitrary: n qs qs') (auto simp: serializedFrom_Cons)

lemma opensToken_append_right: "opensToken b \<Longrightarrow> opensToken (a @ b)"
  by (induction a) simp_all

lemma opensToken_no_dollar: "CHR ''$'' \<notin> set s \<Longrightarrow> \<not> opensToken s"
  by (induction s) auto

lemma takeWhile_not_all:
  "\<not> list_all P cs \<Longrightarrow> takeWhile P (cs @ b) = takeWhile P cs \<and> dropWhile P (cs @ b) = dropWhile P cs @ b"
  by (induction cs) simp_all

lemma placeholders_append_closed:
  "\<not> opensToken a \<Longrightarrow> placeholders (a @ b) = placeholders a @ placeholders b"
proof (induction a rule: placeholders.induct)
  case 1
  then show ?case by simp
next
  case (2 c cs)
  from "2.prems" have open_here: "\<not> (c = CHR ''$'' \<and> list_all is_digit cs)"
    and closed_tl: "\<not> opensToken cs"
    by simp_all
  show ?case
  proof (cases "c = CHR ''$''")
    case True
    with open_here have some: "\<not> list_all is_digit cs" by simp
    note split = takeWhile_not_all [OF some, of b]
    show ?thesis
    proof (cases "takeWhile is_digit cs = []")
      case True
      with \<open>c = CHR ''$''\<close> "2.IH"(2) closed_tl show ?thesis
        by (simp add: split)
    next
      case False
      have "opensToken (dropWhile is_digit cs) \<Longrightarrow> opensToken cs"
        using opensToken_append_right [of "dropWhile is_digit cs" "takeWhile is_digit cs"] by simp
      with closed_tl have "\<not> opensToken (dropWhile is_digit cs)" by blast
      with False \<open>c = CHR ''$''\<close> "2.IH"(1) show ?thesis
        by (simp add: split)
    qed
  next
    case False
    with "2.IH"(2) closed_tl show ?thesis by simp
  qed
qed

lemma placeholders_append_seam:
  "\<not> (opensToken a \<and> startsWithDigit b) \<Longrightarrow> placeholders (a @ b) = placeholders a @ placeholders b"
  using placeholders_append placeholders_append_closed by blast

lemma seamless_concat:
  "seamless acc ps \<Longrightarrow>
   placeholders (acc @ concat ps) = placeholders acc @ concat (map placeholders ps)"
proof (induction ps arbitrary: acc)
  case Nil
  then show ?case by simp
next
  case (Cons p ps)
  from Cons.prems have seam: "\<not> (opensToken acc \<and> startsWithDigit p)" and rest: "seamless (acc @ p) ps"
    by simp_all
  from Cons.IH [OF rest] placeholders_append_seam [OF seam] show ?case
    by simp
qed

subsection \<open>Barriers\<close>

lemma barrier_literals [simp]:
  "barrier ''(''" "barrier '')''" "barrier '', ''" "barrier '' AND ''" "barrier '' = ''"
  "barrier ''), (''" "barrier '' VALUES ''"
  by (simp_all add: barrier_def is_digit_def)

lemma barrier_append: "barrier a \<Longrightarrow> barrier b \<Longrightarrow> barrier (a @ b)"
  by (auto simp: barrier_def startsWithDigit_append)

lemma barrier_closes: "barrier s \<Longrightarrow> \<not> opensToken (a @ s)"
proof (induction a)
  case Nil
  then show ?case by (simp add: barrier_def opensToken_no_dollar)
next
  case (Cons c a)
  from Cons.prems obtain d ds where s: "s = d # ds" and d: "\<not> is_digit d"
    by (cases s) (auto simp: barrier_def)
  then have "\<not> list_all is_digit (a @ s)" by simp
  with Cons show ?case by simp
qed

lemma placeholders_barrier: "barrier s \<Longrightarrow> placeholders s = []"
  by (simp add: barrier_def placeholders_none)

lemma placeholders_barrier_between:
  assumes "barrier s"
  shows "placeholders (a @ s @ b) = placeholders a @ placeholders b"
proof -
  from assms have "\<not> startsWithDigit (s @ b)"
    by (simp add: barrier_def startsWithDigit_append)
  then have "placeholders (a @ s @ b) = placeholders a @ placeholders (s @ b)"
    by (rule placeholders_append)
  moreover from barrier_closes [OF assms, of "[]"] have "placeholders (s @ b) = placeholders s @ placeholders b"
    by (simp add: placeholders_append_closed)
  ultimately show ?thesis
    using assms by (simp add: placeholders_barrier)
qed

lemma placeholders_barrier_before: "barrier s \<Longrightarrow> placeholders (s @ b) = placeholders b"
  using placeholders_barrier_between [of s "[]" b] by simp

lemma placeholders_barrier_after: "barrier s \<Longrightarrow> placeholders (a @ s) = placeholders a"
  using placeholders_barrier_between [of s a "[]"] by simp

lemma placeholders_join:
  "barrier sep \<Longrightarrow> placeholders (join sep ts) = concat (map placeholders ts)"
  by (induction sep ts rule: join.induct) (simp_all add: placeholders_barrier_between)

subsection \<open>Loops that advance\<close>

lemma advances_refl: "advances st st []"
  by (simp add: advances_def)

lemma advances_same_tokens:
  "advances st st' t \<Longrightarrow> placeholders u = placeholders t \<Longrightarrow> advances st st' u"
  by (simp add: advances_def)

lemma advances_tokens_append:
  assumes "advances st st1 a" and "advances st1 st' b"
    and "placeholders u = placeholders a @ placeholders b"
  shows "advances st st' u"
proof -
  from assms(1) obtain k where k: "length (fst st1) = length (fst st) + k" "snd st1 = snd st + k"
    "placeholders a = [snd st..<snd st + k]"
    by (auto simp: advances_def)
  from assms(2) obtain j where j: "length (fst st') = length (fst st1) + j" "snd st' = snd st1 + j"
    "placeholders b = [snd st1..<snd st1 + j]"
    by (auto simp: advances_def)
  have "placeholders u = [snd st..<snd st + k] @ [snd st + k..<snd st + k + j]"
    using k j assms(3) by simp
  also have "\<dots> = [snd st..<snd st + (k + j)]"
    using upt_add_eq_append [of "snd st" "snd st + k" j] by (simp add: add.assoc)
  finally have "placeholders u = [snd st..<snd st + (k + j)]" .
  then show ?thesis
    unfolding advances_def using k j by (intro exI [of _ "k + j"]) simp
qed

lemma mapS_advances:
  assumes "\<And>x st t st'. x \<in> set xs \<Longrightarrow> f x st = Inr (t, st') \<Longrightarrow> advances st st' t"
    and "barrier sep"
    and "mapS f xs st = Inr (ts, st')"
  shows "advances st st' (join sep ts)"
  using assms(1,3)
proof (induction xs arbitrary: st ts)
  case Nil
  then show ?case by (simp add: advances_refl)
next
  case (Cons x xs)
  from Cons.prems(2) obtain t st1 ts' where hd: "f x st = Inr (t, st1)"
    and tl: "mapS f xs st1 = Inr (ts', st')" and ts: "ts = t # ts'"
    by (auto split: sum.splits prod.splits)
  from Cons.prems(1) [OF _ hd] have a: "advances st st1 t" by simp
  have "\<And>y s u s'. y \<in> set xs \<Longrightarrow> f y s = Inr (u, s') \<Longrightarrow> advances s s' u"
    by (rule Cons.prems(1)) simp_all
  from Cons.IH [OF this tl] have b: "advances st1 st' (join sep ts')" .
  have "placeholders (join sep (t # ts')) = placeholders t @ placeholders (join sep ts')"
    using assms(2) by (simp add: placeholders_join)
  from advances_tokens_append [OF a b this] show ?case
    by (simp add: ts)
qed

lemma serializeStep_advances:
  assumes "wellNumbered v"
    and "\<And>u. placeholders (w u) = placeholders u"
    and "serializeStep w v st = Inr (t, st')"
  shows "advances st st' t"
proof -
  obtain vals n where st: "st = (vals, n)" by (cases st)
  from assms(3) obtain q where q: "buildSql v n = Inr q" and t: "t = w (text_of q)"
    and st': "st' = (vals @ values_of q, n + length (values_of q))"
    by (auto simp: st serializeStep_apply split: sum.splits)
  from assms(1) q have "placeholders (text_of q) = [n..<n + length (values_of q)]"
    by (simp add: wellNumbered_def)
  then show ?thesis
    by (auto simp: advances_def st st' t assms(2))
qed

lemma advances_result:
  "advances ([], n) (vals, n') t \<Longrightarrow> placeholders t = [n..<n + length vals]"
  by (auto simp: advances_def)

subsection \<open>Expressions that keep the numbering\<close>

lemma wellNumbered_scalar: "\<not> isSqlBuilder v \<Longrightarrow> \<not> isArray v \<Longrightarrow> wellNumbered v"
  by (auto simp: wellNumbered_def buildSql_scalar placeholders_placeholder)

lemma wellNumbered_safe: "wellNumbered (VBuilder (safeExpression v))"
  by (auto simp: wellNumbered_def safeExpression_def paramSqlBuilder_def placeholders_placeholder)

lemma wellNumbered_raw: "placeholders s = [] \<Longrightarrow> wellNumbered (VBuilder (rawExpression s))"
  by (auto simp: wellNumbered_def rawExpression_def rawSqlBuilder_def)

lemma wellNumbered_array:
  assumes "\<forall>x \<in> set elements. wellNumbered x"
  shows "wellNumbered (VArr elements)"
  unfolding wellNumbered_def
proof (intro allI impI)
  fix n q assume "buildSql (VArr elements) n = Inr q"
  then have "(case mapS (serializeStep (\<lambda>t. t)) elements ([], n) of
        Inl e \<Rightarrow> Inl e
      | Inr (texts, (vals, nextID)) \<Rightarrow> Inr (QueryConfig (''('' @ join '', '' texts @ '')'') vals)) = Inr q"
    unfolding buildSql_VArr .
  then obtain ts vals n' where m: "mapS (serializeStep (\<lambda>t. t)) elements ([], n) = Inr (ts, (vals, n'))"
    and q: "q = QueryConfig (''('' @ join '', '' ts @ '')'') vals"
    by (auto split: sum.splits prod.splits)
  have "advances ([], n) (vals, n') (join '', '' ts)"
  proof (rule mapS_advances [OF _ _ m])
    fix x st t st'
    assume "x \<in> set elements" and "serializeStep (\<lambda>t. t) x st = Inr (t, st')"
    with assms serializeStep_advances [of x "\<lambda>t. t" st t st'] show "advances st st' t"
      by simp
  qed simp
  from advances_result [OF this] have "placeholders (join '', '' ts) = [n..<n + length vals]" .
  moreover have "placeholders (''('' @ join '', '' ts @ '')'') = placeholders (join '', '' ts)"
    by (simp only: placeholders_barrier_before placeholders_barrier_after barrier_literals)
  ultimately show "placeholders (text_of q) = [n..<n + length (values_of q)]"
    by (simp only: q QueryConfig.sel)
qed

lemma set_filterUndefined: "set (filterUndefined record) \<subseteq> set record"
  by (auto simp: filterUndefined_def)

lemma spread_chain_advances:
  assumes "\<forall>x \<in> set entries. placeholders (escapeIdentifier (fst x)) = [] \<and> wellNumbered (snd x)"
    and "barrier sep"
    and "mapS (\<lambda>(columnName, columnValue).
                 serializeStep (\<lambda>t. escapeIdentifier columnName @ '' = '' @ t) columnValue)
              entries st = Inr (ts, st')"
  shows "advances st st' (join sep ts)"
proof (rule mapS_advances [OF _ assms(2,3)])
  fix x s t s'
  assume x: "x \<in> set entries"
    and step: "(case x of (columnName, columnValue) \<Rightarrow>
                  serializeStep (\<lambda>t. escapeIdentifier columnName @ '' = '' @ t) columnValue) s = Inr (t, s')"
  from x assms(1) have c: "placeholders (escapeIdentifier (fst x)) = []" and w: "wellNumbered (snd x)"
    by auto
  from step have step': "serializeStep (\<lambda>t. escapeIdentifier (fst x) @ '' = '' @ t) (snd x) s = Inr (t, s')"
    by (simp add: case_prod_unfold)
  have "placeholders (escapeIdentifier (fst x) @ '' = '' @ u) = placeholders u" for u
    using placeholders_barrier_between [of "'' = ''" "escapeIdentifier (fst x)" u] c by simp
  from serializeStep_advances [OF w this step'] show "advances s s' t" .
qed

lemma wellNumbered_spreadAnd:
  assumes "\<forall>x \<in> set (filterUndefined record).
             placeholders (escapeIdentifier (fst x)) = [] \<and> wellNumbered (snd x)"
  shows "wellNumbered (VBuilder (spreadAnd escapeIdentifier record))"
  unfolding wellNumbered_def
proof (intro allI impI)
  fix n q assume "buildSql (VBuilder (spreadAnd escapeIdentifier record)) n = Inr q"
  then obtain ts vals n' where
    m: "mapS (\<lambda>(columnName, columnValue).
               serializeStep (\<lambda>t. escapeIdentifier columnName @ '' = '' @ t) columnValue)
          (filterUndefined record) ([], n) = Inr (ts, (vals, n'))"
    and q: "q = QueryConfig (''('' @ join '' AND '' ts @ '')'') vals"
    by (auto simp: spreadAnd_def mkSqlBuilder_def Let_def split: sum.splits prod.splits)
  from spread_chain_advances [OF assms _ m, of "'' AND ''"]
  have "advances ([], n) (vals, n') (join '' AND '' ts)" by simp
  from advances_result [OF this] have "placeholders (join '' AND '' ts) = [n..<n + length vals]" .
  moreover have "placeholders (''('' @ join '' AND '' ts @ '')'') = placeholders (join '' AND '' ts)"
    by (simp only: placeholders_barrier_before placeholders_barrier_after barrier_literals)
  ultimately show "placeholders (text_of q) = [n..<n + length (values_of q)]"
    by (simp only: q QueryConfig.sel)
qed

lemma wellNumbered_spreadUpdate:
  assumes "\<forall>x \<in> set (filterUndefined record).
             placeholders (escapeIdentifier (fst x)) = [] \<and> wellNumbered (snd x)"
  shows "wellNumbered (VBuilder (spreadUpdate escapeIdentifier record))"
  unfolding wellNumbered_def
proof (intro allI impI)
  fix n q assume "buildSql (VBuilder (spreadUpdate escapeIdentifier record)) n = Inr q"
  then obtain ts vals n' where
    m: "mapS (\<lambda>(columnName, columnValue).
               serializeStep (\<lambda>t. escapeIdentifier columnName @ '' = '' @ t) columnValue)
          (filterUndefined record) ([], n) = Inr (ts, (vals, n'))"
    and q: "q = QueryConfig (join '', '' ts) vals"
    by (auto simp: spreadUpdate_def mkSqlBuilder_def Let_def split: sum.splits prod.splits)
  from spread_chain_advances [OF assms _ m, of "'', ''"]
  have "advances ([], n) (vals, n') (join '', '' ts)" by simp
  from advances_result [OF this] show "placeholders (text_of q) = [n..<n + length (values_of q)]"
    by (simp add: q)
qed

lemma insertCell_advances:
  assumes "wellNumbered (lookup r c)" and "insertCell r c st = Inr (t, st')"
  shows "advances st st' t"
proof -
  from assms(2) have "serializeStep (\<lambda>t. t) (lookup r c) st = Inr (t, st')"
    by (simp add: insertCell_def Let_def split: if_splits)
  from serializeStep_advances [OF assms(1) _ this] show ?thesis by simp
qed

lemma insertRow_advances:
  assumes "\<forall>c \<in> set columns. wellNumbered (lookup r c)" and "insertRow columns r st = Inr (t, st')"
  shows "advances st st' t"
proof -
  from assms(2) obtain cells where m: "mapS (insertCell r) columns st = Inr (cells, st')"
    and t: "t = join '', '' cells"
    by (auto simp: insertRow_def split: sum.splits prod.splits)
  have "advances st st' (join '', '' cells)"
    by (rule mapS_advances [OF _ _ m]) (use assms(1) in \<open>auto intro: insertCell_advances\<close>)
  then show ?thesis by (simp add: t)
qed

lemma wellNumbered_spreadInsert:
  assumes "\<forall>c \<in> set (extractKeys (map filterUndefined records)).
             placeholders (escapeIdentifier c) = [] \<and> (\<forall>r \<in> set records. wellNumbered (lookup r c))"
  shows "wellNumbered (VBuilder (spreadInsert escapeIdentifier records))"
  unfolding wellNumbered_def
proof (intro allI impI)
  let ?columns = "extractKeys (map filterUndefined records)"
  let ?names = "join '', '' (map escapeIdentifier ?columns)"
  fix n q assume "buildSql (VBuilder (spreadInsert escapeIdentifier records)) n = Inr q"
  then obtain rows vals n' where
    m: "mapS (insertRow ?columns) records ([], n) = Inr (rows, (vals, n'))"
    and q: "q = QueryConfig (''('' @ ?names @ '')'' @ '' VALUES '' @ ''('' @ join ''), ('' rows @ '')'') vals"
    unfolding spreadInsert_unfold by (auto split: sum.splits prod.splits)
  have "concat (map placeholders (map escapeIdentifier ?columns)) = []"
    using assms by (induction ?columns) auto
  then have names: "placeholders ?names = []"
    by (simp add: placeholders_join)
  have "advances ([], n) (vals, n') (join ''), ('' rows)"
  proof (rule mapS_advances [OF _ _ m])
    fix r st t st'
    assume "r \<in> set records" and "insertRow ?columns r st = Inr (t, st')"
    with assms show "advances st st' t"
      by (intro insertRow_advances [of ?columns r st t st']) auto
  qed simp
  from advances_result [OF this] have rows: "placeholders (join ''), ('' rows) = [n..<n + length vals]" .
  have mid: "barrier ('')'' @ '' VALUES '' @ ''('')"
    by (intro barrier_append barrier_literals)
  have "placeholders ((''('' @ ?names) @ ('')'' @ '' VALUES '' @ ''('') @ (join ''), ('' rows @ '')'')) =
        placeholders (''('' @ ?names) @ placeholders (join ''), ('' rows @ '')'')"
    using mid by (rule placeholders_barrier_between)
  also have "\<dots> = placeholders ?names @ placeholders (join ''), ('' rows)"
    by (simp only: placeholders_barrier_before placeholders_barrier_after barrier_literals)
  finally have "placeholders (''('' @ ?names @ '')'' @ '' VALUES '' @ ''('' @ join ''), ('' rows @ '')'') =
      [n..<n + length vals]"
    by (simp add: names rows)
  then show "placeholders (text_of q) = [n..<n + length (values_of q)]"
    by (simp only: q QueryConfig.sel)
qed

lemma keepsNumbering_wellNumbered: "keepsNumbering v \<Longrightarrow> wellNumbered v"
proof (induction rule: keepsNumbering.induct)
  case (scalar v)
  then show ?case by (rule wellNumbered_scalar)
next
  case (safe v)
  show ?case by (rule wellNumbered_safe)
next
  case (raw rawValue)
  then show ?case by (rule wellNumbered_raw)
next
  case (handmade b)
  then show ?case .
next
  case (array elements)
  then show ?case by (intro wellNumbered_array) blast
next
  case (spreadAnd r e)
  then show ?case by (intro wellNumbered_spreadAnd) blast
next
  case (spreadUpdate r e)
  then show ?case by (intro wellNumbered_spreadUpdate) blast
next
  case (spreadInsert rs e)
  then show ?case by (intro wellNumbered_spreadInsert) blast
qed

lemma serializedFrom_tokens:
  "serializedFrom es n qs \<Longrightarrow> \<forall>e \<in> set es. wellNumbered e \<Longrightarrow>
   concat (map placeholders (map text_of qs)) = [n..<n + length (concat (map values_of qs))]"
proof (induction es arbitrary: n qs)
  case Nil
  then show ?case by simp
next
  case (Cons e es)
  from Cons.prems(1) obtain q qs' where qs: "qs = q # qs'" and hd: "buildSql e n = Inr q"
    and tl: "serializedFrom es (n + length (values_of q)) qs'"
    by (auto simp: serializedFrom_Cons)
  from Cons.prems(2) hd have a: "placeholders (text_of q) = [n..<n + length (values_of q)]"
    by (simp add: wellNumbered_def)
  from Cons.prems(2) have "\<forall>e \<in> set es. wellNumbered e" by simp
  from Cons.IH [OF tl this] have b: "concat (map placeholders (map text_of qs')) =
      [n + length (values_of q)..<n + length (values_of q) + length (concat (map values_of qs'))]" .
  show ?case
    using upt_add_eq_append [of n "n + length (values_of q)" "length (concat (map values_of qs'))"] b
    by (simp add: qs a add.assoc)
qed

lemma tokens_mergeLists:
  "\<forall>l \<in> set ls. placeholders l = [] \<Longrightarrow>
   concat (map placeholders (mergeLists ls ts)) = concat (map placeholders ts)"
  by (induction ls ts rule: mergeLists.induct) simp_all

lemma serializedFrom_append_iff:
  "serializedFrom (xs @ ys) n zs \<longleftrightarrow>
     (\<exists>qs rs. zs = qs @ rs \<and> serializedFrom xs n qs \<and>
              serializedFrom ys (n + length (concat (map values_of qs))) rs)"
proof (induction xs arbitrary: n zs)
  case Nil
  then show ?case by simp
next
  case (Cons x xs)
  show ?case
  proof
    assume "serializedFrom ((x # xs) @ ys) n zs"
    then obtain q zs' where zs: "zs = q # zs'" and hd: "buildSql x n = Inr q"
      and tl: "serializedFrom (xs @ ys) (n + length (values_of q)) zs'"
      by (auto simp: serializedFrom_Cons)
    from tl obtain qs rs where zs': "zs' = qs @ rs" and a: "serializedFrom xs (n + length (values_of q)) qs"
      and b: "serializedFrom ys (n + length (values_of q) + length (concat (map values_of qs))) rs"
      unfolding Cons.IH by blast
    have "zs = (q # qs) @ rs" using zs zs' by simp
    moreover have "serializedFrom (x # xs) n (q # qs)"
      using hd a by (simp add: serializedFrom_Cons)
    moreover have "serializedFrom ys (n + length (concat (map values_of (q # qs)))) rs"
      using b by (simp add: add.assoc)
    ultimately show "\<exists>qs rs. zs = qs @ rs \<and> serializedFrom (x # xs) n qs \<and>
              serializedFrom ys (n + length (concat (map values_of qs))) rs"
      by blast
  next
    assume "\<exists>qs rs. zs = qs @ rs \<and> serializedFrom (x # xs) n qs \<and>
              serializedFrom ys (n + length (concat (map values_of qs))) rs"
    then obtain qs rs where zs: "zs = qs @ rs" and a: "serializedFrom (x # xs) n qs"
      and b: "serializedFrom ys (n + length (concat (map values_of qs))) rs"
      by blast
    from a b show "serializedFrom ((x # xs) @ ys) n zs"
      unfolding zs by (rule serializedFrom_append)
  qed
qed

lemma sql_template_iff:
  assumes "length literals = length expressions"
  shows "sql (l0 # literals) expressions = Inr q \<longleftrightarrow>
     (\<exists>qs. serializedFrom expressions 1 qs \<and>
           q = QueryConfig (l0 @ concat (map2 (\<lambda>s l. text_of s @ l) qs literals))
                 (concat (map values_of qs)))"
proof -
  have "\<And>qs. serializedFrom expressions 1 qs \<Longrightarrow>
      concat (mergeLists (l0 # literals) (map text_of qs)) =
      l0 @ concat (map2 (\<lambda>s l. text_of s @ l) qs literals)"
    using assms by (simp add: concat_mergeLists serializedFrom_length zip_map1 case_prod_unfold comp_def)
  then show ?thesis
    unfolding sql_iff by auto
qed

text \<open>
  Where the read of a column gives \<^verbatim>\<open>undefined\<close> in a record, for a column that some record
  defines, serializing the \<^verbatim>\<open>spreadInsert\<close> builder fails at every start index, and so does
  every \<^verbatim>\<open>sql\<close> template that interpolates it. When the values that are present serialize
  without failure, the error names the first such column (in the order of the column union)
  of the first record that has one.
\<close>

lemma spreadInsert_fails_when_undefined:
  assumes "r \<in> set records" and "r' \<in> set records"
    and "(c, v) \<in> set r'" and "v \<noteq> VUndefined"
    and "lookup r c = VUndefined"
  shows "(\<exists>e. buildSql (VBuilder (spreadInsert escapeIdentifier records)) startIndex = Inl e) \<and>
         (VBuilder (spreadInsert escapeIdentifier records) \<in> set expressions \<longrightarrow>
            (\<exists>e. sql texts expressions = Inl e)) \<and>
         ((\<forall>r \<in> set records. \<forall>c m. \<exists>q. buildSql (lookup r c) m = Inr q) \<longrightarrow>
            (\<exists>r0 c0.
               find (\<lambda>r. \<exists>c \<in> set (extractKeys (map filterUndefined records)). isUndefined (lookup r c))
                 records = Some r0 \<and>
               find (\<lambda>c. isUndefined (lookup r0 c)) (extractKeys (map filterUndefined records)) = Some c0 \<and>
               buildSql (VBuilder (spreadInsert escapeIdentifier records)) startIndex =
                 Inl (MissingColumnValue c0)))"
proof -
  let ?columns = "extractKeys (map filterUndefined records)"
  let ?b = "spreadInsert escapeIdentifier records"
  from assms(3,4) have "(c, v) \<in> set (filterUndefined r')"
    by (simp add: filterUndefined_def isUndefined_iff)
  with assms(2) have col: "c \<in> set ?columns"
    by (force simp: set_extractKeys)
  have fails: "\<exists>e. buildSql (VBuilder ?b) n = Inl e" for n
  proof -
    from insertRow_fails [OF assms(1) col assms(5), of "([], n)"]
    obtain e where "mapS (insertRow ?columns) records ([], n) = Inl e" by blast
    then show ?thesis unfolding spreadInsert_unfold by simp
  qed
  have in_sql: "VBuilder ?b \<in> set expressions \<longrightarrow> (\<exists>e. sql texts expressions = Inl e)"
    using fails by (blast intro: sql_fails_on_failing_expression)
  have exact: "\<exists>r0 c0.
       find (\<lambda>r. \<exists>c \<in> set ?columns. isUndefined (lookup r c)) records = Some r0 \<and>
       find (\<lambda>c. isUndefined (lookup r0 c)) ?columns = Some c0 \<and>
       buildSql (VBuilder ?b) startIndex = Inl (MissingColumnValue c0)"
    if ok: "\<forall>r \<in> set records. \<forall>c m. \<exists>q. buildSql (lookup r c) m = Inr q"
  proof -
    from assms(1,5) col have "\<exists>r \<in> set records. \<exists>c \<in> set ?columns. isUndefined (lookup r c)"
      by (auto simp: isUndefined_iff)
    then obtain r0 where r0: "find (\<lambda>r. \<exists>c \<in> set ?columns. isUndefined (lookup r c)) records = Some r0"
      by (cases "find (\<lambda>r. \<exists>c \<in> set ?columns. isUndefined (lookup r c)) records")
         (auto simp: find_None_iff)
    then have "\<exists>c \<in> set ?columns. isUndefined (lookup r0 c)"
      by (auto simp: find_Some_iff)
    then obtain c0 where c0: "find (\<lambda>c. isUndefined (lookup r0 c)) ?columns = Some c0"
      by (cases "find (\<lambda>c. isUndefined (lookup r0 c)) ?columns") (auto simp: find_None_iff)
    from insertRow_first_missing [OF ok r0 c0, of "([], startIndex)"]
    have "buildSql (VBuilder ?b) startIndex = Inl (MissingColumnValue c0)"
      unfolding spreadInsert_unfold by simp
    with r0 c0 show ?thesis by blast
  qed
  from fails [of startIndex] in_sql exact show ?thesis by blast
qed

section \<open>The claims\<close>

text \<open>
  C1, as amended. Take a query object returned by \<^verbatim>\<open>sql\<close> where every expression is well
  numbered (serialized from any start index \<open>n\<close>, the placeholders of its text are
  \<open>n\<close>, \<open>n + 1\<close>, ... one for each value it binds: so are plain values, lists,
  \<^verbatim>\<open>sql.safe\<close>, raw fragments that hold no placeholder and the spread helpers over such
  values), where no literal segment holds a placeholder, and where no piece that starts with
  a digit is put right after text ending in a dollar sign and digits. Then the placeholder
  tokens of the text, read from left to right, are exactly 1, 2, ... up to the number of
  values: none is skipped or repeated and every value has its placeholder. The pieces are the
  literal segments and the serialized expressions \<open>qs\<close> in template order.
\<close>

theorem placeholders_match_values:
  assumes "sql texts expressions = Inr q"
    and "serializedFrom expressions 1 qs"
    and "\<forall>e \<in> set expressions. wellNumbered e"
    and "\<forall>l \<in> set texts. placeholders l = []"
    and "seamless [] (mergeLists texts (map text_of qs))"
  shows "placeholders (text_of q) = [1..<1 + length (values_of q)] \<and>
         distinct (placeholders (text_of q)) \<and>
         set (placeholders (text_of q)) = {1..length (values_of q)}"
proof -
  from assms(1) obtain qs' where sf: "serializedFrom expressions 1 qs'"
    and q: "q = QueryConfig (concat (mergeLists texts (map text_of qs'))) (concat (map values_of qs'))"
    unfolding sql_iff by blast
  from sf assms(2) have same: "qs' = qs"
    by (rule serializedFrom_unique)
  from seamless_concat [OF assms(5)]
  have "placeholders (text_of q) = concat (map placeholders (mergeLists texts (map text_of qs)))"
    by (simp add: q same)
  also have "\<dots> = concat (map placeholders (map text_of qs))"
    using assms(4) by (rule tokens_mergeLists)
  also have "\<dots> = [1..<1 + length (concat (map values_of qs))]"
    using assms(2,3) by (rule serializedFrom_tokens)
  finally have eq: "placeholders (text_of q) = [1..<1 + length (values_of q)]"
    by (simp add: q same)
  have d: "distinct (placeholders (text_of q))"
    unfolding eq by (rule distinct_upt)
  have s: "set (placeholders (text_of q)) = {1..length (values_of q)}"
    unfolding eq set_upt by auto
  from eq d s show ?thesis by blast
qed

theorem placeholders_match_values_witness:
  "sql [''SELECT price * 2 FROM t WHERE a = '', '' AND b IN '', '' AND '', '' AND cost < '', '' LIMIT '', '''']
       [VNum 10, VArr [VStr ''x'', VStr ''y''], VBuilder (spreadAnd doubleQuoted [(''c'', VNull)]),
        VBuilder (rawExpression ''$ 5''), VBuilder (rawExpression ''20'')] =
     Inr (QueryConfig
            ''SELECT price * 2 FROM t WHERE a = $1 AND b IN ($2, $3) AND (\"c\" = $4) AND cost < $ 5 LIMIT 20''
            [VNum 10, VStr ''x'', VStr ''y'', VNull]) \<and>
   placeholders
     ''SELECT price * 2 FROM t WHERE a = $1 AND b IN ($2, $3) AND (\"c\" = $4) AND cost < $ 5 LIMIT 20'' =
     [1, 2, 3, 4]"
proof -
  let ?texts = "[''SELECT price * 2 FROM t WHERE a = '', '' AND b IN '', '' AND '', '' AND cost < '',
                 '' LIMIT '', '''']"
  let ?es = "[VNum 10, VArr [VStr ''x'', VStr ''y''], VBuilder (spreadAnd doubleQuoted [(''c'', VNull)]),
              VBuilder (rawExpression ''$ 5''), VBuilder (rawExpression ''20'')]"
  let ?qs = "[QueryConfig ''$1'' [VNum 10], QueryConfig ''($2, $3)'' [VStr ''x'', VStr ''y''],
              QueryConfig ''(\"c\" = $4)'' [VNull], QueryConfig ''$ 5'' [], QueryConfig ''20'' []]"
  let ?t = "''SELECT price * 2 FROM t WHERE a = $1 AND b IN ($2, $3) AND (\"c\" = $4) AND cost < $ 5 LIMIT 20''"
  let ?q = "QueryConfig ?t [VNum 10, VStr ''x'', VStr ''y'', VNull]"
  have run: "sql ?texts ?es = Inr ?q"
    by (simp add: sql_def spreadAnd_def mkSqlBuilder_def serializeStep_def rawExpression_def
          rawSqlBuilder_def eval_simps)
  have sf: "serializedFrom ?es 1 ?qs"
    by (simp add: serializedFrom_Cons spreadAnd_def mkSqlBuilder_def serializeStep_def rawExpression_def
          rawSqlBuilder_def eval_simps)
  have raw1: "keepsNumbering (VBuilder (rawExpression ''$ 5''))"
    by (rule keepsNumbering.raw) (simp add: is_digit_def)
  have raw2: "keepsNumbering (VBuilder (rawExpression ''20''))"
    by (rule keepsNumbering.raw) simp
  have plain: "keepsNumbering (VNum 10)" "keepsNumbering (VStr ''x'')" "keepsNumbering (VStr ''y'')"
    "keepsNumbering VNull"
    by (simp_all add: keepsNumbering.scalar)
  then have arr: "keepsNumbering (VArr [VStr ''x'', VStr ''y''])"
    by (intro keepsNumbering.array) simp
  have "placeholders (doubleQuoted ''c'') = []"
    by (simp add: doubleQuoted_def is_digit_def)
  with plain have spread: "keepsNumbering (VBuilder (spreadAnd doubleQuoted [(''c'', VNull)]))"
    by (intro keepsNumbering.spreadAnd) (simp add: filterUndefined_def)
  from plain arr spread raw1 raw2 have "\<forall>e \<in> set ?es. keepsNumbering e" by simp
  then have keep: "\<forall>e \<in> set ?es. wellNumbered e"
    by (blast intro: keepsNumbering_wellNumbered)
  have lits: "\<forall>l \<in> set ?texts. placeholders l = []"
    by (simp add: is_digit_def)
  have pieces: "mergeLists ?texts (map text_of ?qs) =
      [''SELECT price * 2 FROM t WHERE a = '', ''$1'', '' AND b IN '', ''($2, $3)'', '' AND '',
       ''(\"c\" = $4)'', '' AND cost < '', ''$ 5'', '' LIMIT '', ''20'', '''']"
    by simp
  have seams: "seamless [] (mergeLists ?texts (map text_of ?qs))"
    unfolding pieces by code_simp
  from placeholders_match_values [OF run sf keep lits seams]
  have "placeholders ?t = [1, 2, 3, 4]" by (simp add: upt_rec)
  with run show ?thesis by simp
qed

text \<open>
  C1 as stated fails. A raw fragment is put into the text as it is, so it can hold a
  placeholder for which there is no value; a literal segment can hold one too; and a
  segment that starts with a digit turns the placeholder before it into another one.
\<close>

theorem raw_placeholder_without_value:
  "sql [''SELECT '', ''''] [VBuilder (rawExpression ''$2'')] = Inr (QueryConfig ''SELECT $2'' []) \<and>
   placeholders ''SELECT $2'' = [2] \<and>
   length (placeholders ''SELECT $2'') \<noteq> length ([] :: val list) \<and>
   sql [''SELECT $1''] [] = Inr (QueryConfig ''SELECT $1'' []) \<and>
   placeholders ''SELECT $1'' = [1] \<and>
   sql [''SELECT '', ''0''] [VNum 7] = Inr (QueryConfig ''SELECT $10'' [VNum 7]) \<and>
   placeholders ''SELECT $10'' = [10]"
  by (simp add: sql_def rawExpression_def rawSqlBuilder_def is_digit_def number_of_def digit_val_def
        eval_simps)

text \<open>
  C2, as amended. Two runs of \<^verbatim>\<open>sql\<close> on the same template whose expressions have the same
  shapes, that is, which differ only in the plain values bound (arrays keep their lengths
  and nesting, builders are the same), fail alike or return the same text and the same
  number of values. And when no expression holds a builder, \<^verbatim>\<open>sql\<close> returns a query object
  whose values are the plain values of the expressions, in order: they go to the values,
  and the text does not depend on them.
\<close>

theorem bound_values_leave_text_alone:
  "(map shapeOf expressions = map shapeOf expressions' \<longrightarrow>
      sameText (sql texts expressions) (sql texts expressions')) \<and>
   ((\<forall>e \<in> set expressions. builderFree e) \<longrightarrow>
      (\<exists>t. sql texts expressions = Inr (QueryConfig t (concat (map leaves expressions)))))"
proof (intro conjI impI)
  assume sh: "map shapeOf expressions = map shapeOf expressions'"
  have "list_all2 (\<lambda>v v'. \<forall>m. sameText (buildSql v m) (buildSql v' m)) expressions expressions'"
    unfolding list_all2_conv_all_nth
  proof (intro conjI allI impI)
    from sh show len: "length expressions = length expressions'" by (metis length_map)
    fix i m assume "i < length expressions"
    with sh len have "shapeOf (expressions ! i) = shapeOf (expressions' ! i)"
      by (metis nth_map)
    then show "sameText (buildSql (expressions ! i) m) (buildSql (expressions' ! i) m)"
      by (rule buildSql_sameText)
  qed
  from mapS_sameText [OF this, of "[]" "[]" "\<lambda>t. t" 1]
  show "sameText (sql texts expressions) (sql texts expressions')"
    by (auto simp: sql_unfold split: sum.splits prod.splits)
next
  assume "\<forall>e \<in> set expressions. builderFree e"
  then show "\<exists>t. sql texts expressions = Inr (QueryConfig t (concat (map leaves expressions)))"
    by (rule sql_leaves)
qed

theorem bound_values_leave_text_alone_witness:
  "sameText
     (sql [''SELECT * FROM t WHERE a = '', '' AND b IN '', ''''] [VStr ''x'', VArr [VNum 1, VNum 2]])
     (sql [''SELECT * FROM t WHERE a = '', '' AND b IN '', '''']
          [VStr ''1; DROP TABLE t'', VArr [VNull, VStr ''y'']]) \<and>
   sql [''SELECT * FROM t WHERE a = '', '' AND b IN '', '''']
       [VStr ''1; DROP TABLE t'', VArr [VNull, VStr ''y'']] =
     Inr (QueryConfig ''SELECT * FROM t WHERE a = $1 AND b IN ($2, $3)''
            [VStr ''1; DROP TABLE t'', VNull, VStr ''y''])"
proof -
  let ?texts = "[''SELECT * FROM t WHERE a = '', '' AND b IN '', '''']"
  let ?es = "[VStr ''x'', VArr [VNum 1, VNum 2]]"
  let ?es' = "[VStr ''1; DROP TABLE t'', VArr [VNull, VStr ''y'']]"
  have shapes: "map shapeOf ?es = map shapeOf ?es'"
    by simp
  have plain: "\<forall>e \<in> set ?es'. builderFree e"
    by simp
  from bound_values_leave_text_alone [of ?es ?es' ?texts] shapes
  have same: "sameText (sql ?texts ?es) (sql ?texts ?es')"
    by blast
  from bound_values_leave_text_alone [of ?es' ?es' ?texts] plain
  obtain t where vals: "sql ?texts ?es' = Inr (QueryConfig t (concat (map leaves ?es')))"
    by blast
  have "sql ?texts ?es' =
      Inr (QueryConfig ''SELECT * FROM t WHERE a = $1 AND b IN ($2, $3)''
             [VStr ''1; DROP TABLE t'', VNull, VStr ''y''])"
    by (simp add: sql_def eval_simps)
  with same show ?thesis
    by simp
qed

text \<open>
  C2 as stated fails: two runs that differ only in an interpolated list value return
  different texts when the lists differ in length.
\<close>

theorem list_length_changes_text:
  "sql [''SELECT '', ''''] [VArr [VNum 1]] = Inr (QueryConfig ''SELECT ($1)'' [VNum 1]) \<and>
   sql [''SELECT '', ''''] [VArr [VNum 1, VNum 2]] = Inr (QueryConfig ''SELECT ($1, $2)'' [VNum 1, VNum 2]) \<and>
   ''SELECT ($1)'' \<noteq> ''SELECT ($1, $2)''"
  by (simp add: sql_def eval_simps)

text \<open>
  C3. For a template with the literal segments \<open>l0\<close> and \<open>literals\<close>, one after each
  expression, \<^verbatim>\<open>sql\<close> returns a query object exactly when the expressions serialize one after
  the other from index 1, each at 1 plus the number of values gathered so far; the text is
  then the first segment followed by each serialized text and the segment after it, in
  template order, and the values are the values of the expressions in that order.
\<close>

theorem sql_interleaves:
  "length literals = length expressions \<Longrightarrow>
   sql (l0 # literals) expressions = Inr q \<longleftrightarrow>
     (\<exists>qs. serializedFrom expressions 1 qs \<and>
           q = QueryConfig (l0 @ concat (map2 (\<lambda>s l. text_of s @ l) qs literals))
                 (concat (map values_of qs)))"
proof -
  assume len: "length literals = length expressions"
  have "\<And>qs. serializedFrom expressions 1 qs \<Longrightarrow>
      concat (mergeLists (l0 # literals) (map text_of qs)) =
      l0 @ concat (map2 (\<lambda>s l. text_of s @ l) qs literals)"
    using len by (simp add: concat_mergeLists serializedFrom_length zip_map1 case_prod_unfold comp_def)
  then show ?thesis
    unfolding sql_iff by auto
qed

theorem sql_interleaves_witness:
  "sql [''SELECT '', '' FROM t WHERE a IN '', '' AND b = '', '''']
       [VBuilder (rawExpression ''x''), VArr [VNum 1, VNum 2], VStr ''y''] =
     Inr (QueryConfig ''SELECT x FROM t WHERE a IN ($1, $2) AND b = $3'' [VNum 1, VNum 2, VStr ''y''])"
proof -
  let ?es = "[VBuilder (rawExpression ''x''), VArr [VNum 1, VNum 2], VStr ''y'']"
  let ?qs = "[QueryConfig ''x'' [], QueryConfig ''($1, $2)'' [VNum 1, VNum 2], QueryConfig ''$3'' [VStr ''y'']]"
  have sf: "serializedFrom ?es 1 ?qs"
    by (simp add: serializedFrom_Cons eval_simps rawExpression_def rawSqlBuilder_def)
  have len: "length ['' FROM t WHERE a IN '', '' AND b = '', ''''] = length ?es"
    by simp
  show ?thesis
    using sql_interleaves [OF len, of "''SELECT ''"
        "QueryConfig ''SELECT x FROM t WHERE a IN ($1, $2) AND b = $3'' [VNum 1, VNum 2, VStr ''y'']"] sf
    by (auto intro!: exI [of _ ?qs])
qed

text \<open>
  C4. \<^verbatim>\<open>spreadInsert\<close> reads each cell as \<^verbatim>\<open>record[columnName]\<close> and throws when the type of
  what it read is \<^verbatim>\<open>undefined\<close>. For a column that no object inherits a value for, this is
  the check the claim describes: the records \<^verbatim>\<open>{a: 1, b: 2}\<close> and \<^verbatim>\<open>{a: 3}\<close> fail with
  \<open>MissingColumnValue\<close> for \<^verbatim>\<open>b\<close>, alone and inside a template. But the read goes through the
  prototype chain. In the records \<^verbatim>\<open>{id: 1, constructor: 'x'}\<close> and \<^verbatim>\<open>{id: 2}\<close> the second
  record omits the column \<^verbatim>\<open>constructor\<close> that the first one defines, and no error is
  raised: the read finds the function \<^verbatim>\<open>Object\<close> that every object inherits under that
  name, and a query is returned that binds this function as the fourth parameter.
\<close>

theorem spreadInsert_inherited_column:
  "sql [''INSERT INTO t '', '''']
       [VBuilder (spreadInsert doubleQuoted
          [[(''id'', VNum 1), (''constructor'', VStr ''x'')], [(''id'', VNum 2)]])] =
     Inr (QueryConfig ''INSERT INTO t (\"id\", \"constructor\") VALUES ($1, $2), ($3, $4)''
           [VNum 1, VStr ''x'', VNum 2, VFunction ''Object'']) \<and>
   buildSql (VBuilder (spreadInsert doubleQuoted [[(''a'', VNum 1), (''b'', VNum 2)], [(''a'', VNum 3)]])) 1 =
     Inl (MissingColumnValue ''b'') \<and>
   sql [''INSERT INTO t '', '''']
       [VBuilder (spreadInsert doubleQuoted [[(''a'', VNum 1), (''b'', VNum 2)], [(''a'', VNum 3)]])] =
     Inl (MissingColumnValue ''b'')"
  by (simp add: sql_def spreadInsert_def insertRow_def insertCell_def mkSqlBuilder_def
        serializeStep_def extractKeys_def filterUndefined_def lookup_def objectPrototype_def
        doubleQuoted_def eval_simps)



text \<open>
  C7. A builder interpolated anywhere in a template is serialized at the start index 1 plus
  the number of values of the expressions before it, whatever the builder: \<^verbatim>\<open>sql\<close> returns
  a query object exactly when the expressions before it serialize in turn from 1, the
  builder serializes at that index, and the expressions after it serialize in turn from the
  index after the builder's values; text and values are then in template order. And a
  \<^verbatim>\<open>spreadAnd\<close> builder serializes at a start index exactly when its remaining values, plain
  or not, serialize in turn from that index; its text is then the chain of its entries in
  one pair of parentheses. So the placeholders inside the builder follow those before it.
  The witness has two parameters before the builder, whose placeholders then start at
  \<^verbatim>\<open>$3\<close>.
\<close>

theorem nested_renumbering:
  assumes "length literals = length (preceding @ VBuilder b # following)"
  shows "(sql (l0 # literals) (preceding @ VBuilder b # following) = Inr q \<longleftrightarrow>
           (\<exists>qs f rs.
              serializedFrom preceding 1 qs \<and>
              buildSql (VBuilder b) (1 + length (concat (map values_of qs))) = Inr f \<and>
              serializedFrom following
                (1 + length (concat (map values_of qs)) + length (values_of f)) rs \<and>
              q = QueryConfig (l0 @ concat (map2 (\<lambda>s l. text_of s @ l) (qs @ f # rs) literals))
                    (concat (map values_of qs) @ values_of f @ concat (map values_of rs)))) \<and>
         (buildSql (VBuilder (spreadAnd escapeIdentifier record)) startIndex = Inr g \<longleftrightarrow>
           (\<exists>ss. serializedFrom (map snd (filterUndefined record)) startIndex ss \<and>
                 g = QueryConfig
                       (''('' @ join '' AND ''
                                  (map2 (\<lambda>(columnName, columnValue) s.
                                           escapeIdentifier columnName @ '' = '' @ text_of s)
                                     (filterUndefined record) ss) @ '')'')
                       (concat (map values_of ss))))"
proof
  let ?rhs = "\<exists>qs f rs.
      serializedFrom preceding 1 qs \<and>
      buildSql (VBuilder b) (1 + length (concat (map values_of qs))) = Inr f \<and>
      serializedFrom following (1 + length (concat (map values_of qs)) + length (values_of f)) rs \<and>
      q = QueryConfig (l0 @ concat (map2 (\<lambda>s l. text_of s @ l) (qs @ f # rs) literals))
            (concat (map values_of qs) @ values_of f @ concat (map values_of rs))"
  have split: "serializedFrom (preceding @ VBuilder b # following) 1 zs \<longleftrightarrow>
      (\<exists>qs f rs. zs = qs @ f # rs \<and> serializedFrom preceding 1 qs \<and>
         buildSql (VBuilder b) (1 + length (concat (map values_of qs))) = Inr f \<and>
         serializedFrom following (1 + length (concat (map values_of qs)) + length (values_of f)) rs)"
    for zs
    unfolding serializedFrom_append_iff serializedFrom_Cons by blast
  show "sql (l0 # literals) (preceding @ VBuilder b # following) = Inr q \<longleftrightarrow> ?rhs"
  proof
    assume "sql (l0 # literals) (preceding @ VBuilder b # following) = Inr q"
    then obtain zs where zs: "serializedFrom (preceding @ VBuilder b # following) 1 zs"
      and q: "q = QueryConfig (l0 @ concat (map2 (\<lambda>s l. text_of s @ l) zs literals))
                 (concat (map values_of zs))"
      unfolding sql_template_iff [OF assms] by blast
    from zs obtain qs f rs where "zs = qs @ f # rs" "serializedFrom preceding 1 qs"
      "buildSql (VBuilder b) (1 + length (concat (map values_of qs))) = Inr f"
      "serializedFrom following (1 + length (concat (map values_of qs)) + length (values_of f)) rs"
      unfolding split by blast
    with q show ?rhs by auto
  next
    assume ?rhs
    then obtain qs f rs where parts: "serializedFrom preceding 1 qs"
      "buildSql (VBuilder b) (1 + length (concat (map values_of qs))) = Inr f"
      "serializedFrom following (1 + length (concat (map values_of qs)) + length (values_of f)) rs"
      and q: "q = QueryConfig (l0 @ concat (map2 (\<lambda>s l. text_of s @ l) (qs @ f # rs) literals))
            (concat (map values_of qs) @ values_of f @ concat (map values_of rs))"
      by blast
    from parts have "serializedFrom (preceding @ VBuilder b # following) 1 (qs @ f # rs)"
      unfolding split by blast
    moreover have "q = QueryConfig (l0 @ concat (map2 (\<lambda>s l. text_of s @ l) (qs @ f # rs) literals))
            (concat (map values_of (qs @ f # rs)))"
      using q by simp
    ultimately show "sql (l0 # literals) (preceding @ VBuilder b # following) = Inr q"
      unfolding sql_template_iff [OF assms] by blast
  qed
next
  show "buildSql (VBuilder (spreadAnd escapeIdentifier record)) startIndex = Inr g \<longleftrightarrow>
           (\<exists>ss. serializedFrom (map snd (filterUndefined record)) startIndex ss \<and>
                 g = QueryConfig
                       (''('' @ join '' AND ''
                                  (map2 (\<lambda>(columnName, columnValue) s.
                                           escapeIdentifier columnName @ '' = '' @ text_of s)
                                     (filterUndefined record) ss) @ '')'')
                       (concat (map values_of ss)))"
    by (rule spreadAnd_iff)
qed

theorem nested_renumbering_witness:
  "sql [''SELECT * FROM t WHERE x = '', '' AND y = '', '' AND '', '' LIMIT '', '''']
       [VNum 10, VStr ''x'',
        VBuilder (spreadAnd doubleQuoted
          [(''a'', VArr [VNum 7, VNum 8]), (''d'', VUndefined),
           (''b'', VBuilder (rawExpression ''now()'')), (''c'', VNull)]),
        VNum 1] =
     Inr (QueryConfig
           ''SELECT * FROM t WHERE x = $1 AND y = $2 AND (\"a\" = ($3, $4) AND \"b\" = now() AND \"c\" = $5) LIMIT $6''
           [VNum 10, VStr ''x'', VNum 7, VNum 8, VNull, VNum 1])"
proof -
  let ?r = "[(''a'', VArr [VNum 7, VNum 8]), (''d'', VUndefined),
             (''b'', VBuilder (rawExpression ''now()'')), (''c'', VNull)]"
  let ?b = "spreadAnd doubleQuoted ?r"
  let ?lits = "['' AND y = '', '' AND '', '' LIMIT '', '''']"
  let ?qs = "[QueryConfig ''$1'' [VNum 10], QueryConfig ''$2'' [VStr ''x'']]"
  let ?ss = "[QueryConfig ''($3, $4)'' [VNum 7, VNum 8], QueryConfig ''now()'' [], QueryConfig ''$5'' [VNull]]"
  let ?f = "QueryConfig ''(\"a\" = ($3, $4) AND \"b\" = now() AND \"c\" = $5)'' [VNum 7, VNum 8, VNull]"
  let ?rs = "[QueryConfig ''$6'' [VNum 1]]"
  let ?q = "QueryConfig
      ''SELECT * FROM t WHERE x = $1 AND y = $2 AND (\"a\" = ($3, $4) AND \"b\" = now() AND \"c\" = $5) LIMIT $6''
      [VNum 10, VStr ''x'', VNum 7, VNum 8, VNull, VNum 1]"
  have len: "length ?lits = length ([VNum 10, VStr ''x''] @ VBuilder ?b # [VNum 1])"
    by simp
  note both = nested_renumbering [OF len, of "''SELECT * FROM t WHERE x = ''" ?q doubleQuoted ?r 3 ?f]
  have entries: "filterUndefined ?r =
      [(''a'', VArr [VNum 7, VNum 8]), (''b'', VBuilder (rawExpression ''now()'')), (''c'', VNull)]"
    by (simp add: filterUndefined_def)
  have inner: "serializedFrom (map snd (filterUndefined ?r)) 3 ?ss"
    unfolding entries
    by (simp add: serializedFrom_Cons rawExpression_def rawSqlBuilder_def eval_simps)
  have builder: "buildSql (VBuilder ?b) 3 = Inr ?f"
    unfolding both [THEN conjunct2] entries
    by (rule exI [of _ ?ss]) (simp add: inner [unfolded entries, simplified] doubleQuoted_def)
  have pre_ok: "serializedFrom [VNum 10, VStr ''x''] 1 ?qs"
    by (simp add: serializedFrom_Cons eval_simps)
  have post_ok: "serializedFrom [VNum 1] 6 ?rs"
    by (simp add: serializedFrom_Cons eval_simps)
  have k: "1 + length (concat (map values_of ?qs)) = 3"
    by simp
  have k': "1 + length (concat (map values_of ?qs)) + length (values_of ?f) = 6"
    by simp
  have "sql (''SELECT * FROM t WHERE x = '' # ?lits) ([VNum 10, VStr ''x''] @ VBuilder ?b # [VNum 1]) =
      Inr ?q"
    unfolding both [THEN conjunct1]
    apply (rule exI [of _ ?qs], rule exI [of _ ?f], rule exI [of _ ?rs])
    unfolding k k'
    apply (intro conjI pre_ok builder post_ok)
    apply (simp_all add: serializedFrom_Cons eval_simps)
    done
  then show ?thesis
    by simp
qed

text \<open>
  C8. An array returns a query object exactly when its elements serialize one after the
  other from the start index, each at the start index plus the number of parameters of the
  elements before it; the text is then the texts of the elements joined by a comma and a
  space inside one pair of parentheses, and the values are the values of the elements in
  order. The empty array gives \<^verbatim>\<open>()\<close> and no parameter, and in a template it stands for the
  literal text \<^verbatim>\<open>()\<close>: the expressions after it are numbered as if it were not there.
\<close>

theorem list_expansion:
  "(buildSql (VArr elements) startIndex = Inr q \<longleftrightarrow>
      (\<exists>qs. serializedFrom elements startIndex qs \<and>
            q = QueryConfig (''('' @ join '', '' (map text_of qs) @ '')'') (concat (map values_of qs)))) \<and>
   buildSql (VArr []) startIndex = Inr (QueryConfig ''()'' []) \<and>
   sql (t0 # t1 # texts) (VArr [] # expressions) = sql ((t0 @ ''()'' @ t1) # texts) expressions"
proof (intro conjI)
  show "buildSql (VArr elements) startIndex = Inr q \<longleftrightarrow>
      (\<exists>qs. serializedFrom elements startIndex qs \<and>
            q = QueryConfig (''('' @ join '', '' (map text_of qs) @ '')'') (concat (map values_of qs)))"
    unfolding buildSql_VArr
    by (rule serialize_list_iff [where fin = "\<lambda>ts. ''('' @ join '', '' ts @ '')''"])
next
  show "buildSql (VArr []) startIndex = Inr (QueryConfig ''()'' [])"
    by simp
next
  show "sql (t0 # t1 # texts) (VArr [] # expressions) = sql ((t0 @ ''()'' @ t1) # texts) expressions"
    by (simp add: sql_unfold serializeStep_apply mergeLists_concat_tail split: sum.split prod.split list.split)
qed

theorem list_expansion_witness:
  "buildSql (VArr [VNum 1, VNum 2, VNum 3]) 1 =
     Inr (QueryConfig ''($1, $2, $3)'' [VNum 1, VNum 2, VNum 3]) \<and>
   buildSql (VArr []) 1 = Inr (QueryConfig ''()'' []) \<and>
   sql [''SELECT '', '' + '', ''''] [VArr [], VNum 5] = Inr (QueryConfig ''SELECT () + $1'' [VNum 5])"
proof -
  let ?qs = "[QueryConfig ''$1'' [VNum 1], QueryConfig ''$2'' [VNum 2], QueryConfig ''$3'' [VNum 3]]"
  have sf: "serializedFrom [VNum 1, VNum 2, VNum 3] 1 ?qs"
    by (simp add: serializedFrom_Cons eval_simps)
  have "buildSql (VArr [VNum 1, VNum 2, VNum 3]) 1 =
     Inr (QueryConfig ''($1, $2, $3)'' [VNum 1, VNum 2, VNum 3])"
    using list_expansion [of "[VNum 1, VNum 2, VNum 3]" 1 "QueryConfig ''($1, $2, $3)'' [VNum 1, VNum 2, VNum 3]"] sf
    by (auto intro!: exI [of _ ?qs])
  moreover have "sql [''SELECT '', '' + '', ''''] [VArr [], VNum 5] = sql [''SELECT () + '', ''''] [VNum 5]"
    using list_expansion [of "[]" 1 _ "''SELECT ''" "'' + ''" "['''']" "[VNum 5]"] by simp
  moreover have "sql [''SELECT () + '', ''''] [VNum 5] = Inr (QueryConfig ''SELECT () + $1'' [VNum 5])"
    by (simp add: sql_def eval_simps)
  ultimately show ?thesis by simp
qed

text \<open>
  C9. For every value, also an array or a builder, the builder made by \<^verbatim>\<open>sql.safe\<close> serializes
  at every start index to the single placeholder of that index, with the value itself as
  the only parameter: the value is bound once and never expanded.
\<close>

theorem safe_binds_one_parameter:
  "buildSql (VBuilder (safeExpression v)) startIndex = Inr (QueryConfig (placeholder startIndex) [v])"
  by (simp add: safeExpression_def paramSqlBuilder_def)

text \<open>
  C10. \<^verbatim>\<open>spreadAnd\<close> of a record with no entry, or with undefined values only, serializes at
  every start index to the text \<^verbatim>\<open>()\<close> with no parameter. It does not fail.
\<close>

theorem spreadAnd_empty:
  "\<forall>(columnName, columnValue) \<in> set record. columnValue = VUndefined \<Longrightarrow>
   buildSql (VBuilder (spreadAnd escapeIdentifier record)) startIndex = Inr (QueryConfig ''()'' [])"
proof -
  assume "\<forall>(columnName, columnValue) \<in> set record. columnValue = VUndefined"
  then have "filterUndefined record = []"
    by (auto simp: filterUndefined_def filter_empty_conv)
  then show ?thesis
    by (simp add: spreadAnd_def mkSqlBuilder_def)
qed

theorem spreadAnd_empty_witness:
  "buildSql (VBuilder (spreadAnd doubleQuoted [])) 1 = Inr (QueryConfig ''()'' []) \<and>
   buildSql (VBuilder (spreadAnd doubleQuoted [(''name'', VUndefined), (''email'', VUndefined)])) 3 =
     Inr (QueryConfig ''()'' [])"
  using spreadAnd_empty [of "[]" doubleQuoted 1]
    spreadAnd_empty [of "[(''name'', VUndefined), (''email'', VUndefined)]" doubleQuoted 3]
  by simp

end
